theory Spec2Isabelle
  imports Main "HOL-Library.Char_ord" "HOL-Library.List_Lexorder"
begin

section \<open>Rule based planner: data model\<close>

text \<open>
  The development embeds \<^verbatim>\<open>src/query/plan/rule_based_planner.cpp\<close>. Pointers to
  AST nodes are modelled by the nodes themselves, a pointer that may be null by an
  \<open>option\<close>. Every AST node carries the uid under which the symbol table knows it.
\<close>

subsection \<open>Symbols and the symbol table\<close>

datatype symbol_kind = NODE | EDGE | PATH | EXPRESSION | ANY

text \<open>
  Modelled from the spec: the class \<^verbatim>\<open>Symbol\<close> is declared outside the planner. It is a
  handle with a name, a kind, a user-declared flag and a token position. The semantic
  analyser hands out one position per symbol, so the structural equality of the record
  agrees with the equality on (name, position, kind) on every symbol it creates.
\<close>

record symbol =
  name :: string
  position :: int
  user_declared :: bool
  kind :: symbol_kind

text \<open>
  \<^verbatim>\<open>std::unordered_set<Symbol>\<close> is a duplicate free list, read in the iteration order of
  the container; \<^verbatim>\<open>insert\<close> reports whether the element was new. The iteration order of
  the C++ container is unspecified; the theorems below speak about \<open>set\<close> of the list
  wherever the source does not depend on it.
\<close>

type_synonym symbol_set = "symbol list"

definition insert_symbol :: "symbol \<Rightarrow> symbol_set \<Rightarrow> symbol_set \<times> bool" where
  "insert_symbol s bs = (if s \<in> set bs then (bs, False) else (bs @ [s], True))"

definition erase_symbol :: "symbol \<Rightarrow> symbol_set \<Rightarrow> symbol_set" where
  "erase_symbol s bs = filter (\<lambda>x. x \<noteq> s) bs"

text \<open>
  How a run of the planner can stop without a result. \<^verbatim>\<open>SymbolTable::at\<close> throws
  \<^verbatim>\<open>std::out_of_range\<close>, the only exception this file can raise; \<^verbatim>\<open>LOG(FATAL)\<close> and a
  failed \<^verbatim>\<open>DCHECK\<close> end the process; \<^verbatim>\<open>back()\<close> or \<^verbatim>\<open>pop_back()\<close> on an empty list
  is undefined behaviour. \<^verbatim>\<open>DCHECK\<close> is modelled as compiled in.
\<close>

datatype failure =
    OutOfRange
  | CheckFailed string
  | FatalLog string
  | Undefined

fun aborts :: "failure \<Rightarrow> bool" where
  "aborts OutOfRange = False"
| "aborts (CheckFailed m) = True"
| "aborts (FatalLog m) = True"
| "aborts Undefined = True"

fun is_exception :: "failure \<Rightarrow> bool" where
  "is_exception OutOfRange = True"
| "is_exception f = False"

type_synonym symbol_table = "nat \<rightharpoonup> symbol"

definition at :: "symbol_table \<Rightarrow> nat \<Rightarrow> failure + symbol" where
  "at table uid = (case table uid of None \<Rightarrow> Inl OutOfRange | Some s \<Rightarrow> Inr s)"

subsection \<open>Expressions\<close>

datatype ast_identifier = Ident (uid: nat) (ident_name: string) (ident_user_declared: bool)

datatype literal = LNull | LBool bool | LInt int | LString string

datatype unary_op = NotOperator | UnaryPlusOperator | UnaryMinusOperator | IsNullOperator

datatype binary_op =
    OrOperator | XorOperator | AndOperator | AdditionOperator | SubtractionOperator
  | MultiplicationOperator | DivisionOperator | ModOperator | NotEqualOperator
  | EqualOperator | LessOperator | GreaterOperator | LessEqualOperator
  | GreaterEqualOperator | InListOperator | ListMapIndexingOperator

datatype aggregation_op =
    Op_COUNT | Op_MIN | Op_MAX | Op_SUM | Op_AVG | Op_COLLECT_LIST | Op_COLLECT_MAP

datatype expression =
    PrimitiveLiteral literal
  | ListLiteral "expression list"
  | MapLiteral "(string \<times> expression) list"
  | Identifier ast_identifier
  | ParameterLookup nat
  | PropertyLookup expression string
  | UnaryOperator unary_op expression
  | BinaryOperator binary_op expression expression
  | ListSlicingOperator expression "expression option" "expression option"
  | IfOperator expression expression expression
  | Function string "expression list"
  | All ast_identifier expression expression
  | Aggregation nat "expression option" "expression option" aggregation_op

datatype named_expression =
  NamedExpression (ne_uid: nat) (ne_name: string) (ne_expression: expression)

datatype ordering = ASC | DESC

record return_body =
  body_distinct :: bool
  body_all_identifiers :: bool
  body_named_expressions :: "named_expression list"
  body_order_by :: "(ordering \<times> expression) list"
  body_skip :: "expression option"
  body_limit :: "expression option"

subsection \<open>Patterns\<close>

datatype node_atom = NodeAtom (node_identifier: ast_identifier) (labels: "string list")

datatype edge_atom = EdgeAtom (edge_identifier: ast_identifier) (edge_types: "string list")

datatype pattern_atom = Node node_atom | Edge edge_atom

fun atom_identifier :: "pattern_atom \<Rightarrow> ast_identifier" where
  "atom_identifier (Node n) = node_identifier n"
| "atom_identifier (Edge e) = edge_identifier e"

record pattern =
  pattern_identifier :: ast_identifier
  pattern_atoms :: "pattern_atom list"

subsection \<open>Logical operators\<close>

record aggregate_element =
  agg_value :: "expression option"
  agg_key :: "expression option"
  agg_op :: aggregation_op
  output_sym :: symbol

text \<open>
  The operators this file builds, and \<open>ScanAll\<close> as a leaf a caller may pass in. The
  input of an operator is a pointer that may be null.
\<close>

datatype logical_operator =
    ScanAll symbol
  | Accumulate "logical_operator option" "symbol list" bool
  | Aggregate "logical_operator option" "aggregate_element list" "expression list" "symbol list"
  | Produce "logical_operator option" "named_expression list"
  | Distinct "logical_operator option" "symbol list"
  | OrderBy "logical_operator option" "(ordering \<times> expression) list" "symbol list"
  | Skip "logical_operator option" expression
  | Limit "logical_operator option" expression
  | Filter "logical_operator option" expression
  | ConstructNamedPath "logical_operator option" symbol "symbol list"
  | CreateNode node_atom "logical_operator option"
  | CreateExpand node_atom edge_atom "logical_operator option" symbol bool

section \<open>The return body classifier\<close>

text \<open>
  Sequencing of fallible steps: the first failure ends the run.
\<close>

definition and_then :: "failure + 'a \<Rightarrow> ('a \<Rightarrow> failure + 'b) \<Rightarrow> failure + 'b" where
  "and_then r f = (case r of Inl e \<Rightarrow> Inl e | Inr x \<Rightarrow> f x)"

lemma and_then_cong [fundef_cong]:
  "r = r' \<Longrightarrow> (\<And>x. r' = Inr x \<Longrightarrow> f x = f' x) \<Longrightarrow> and_then r f = and_then r' f'"
  by (cases r') (simp_all add: and_then_def)

lemma and_then_Inl [simp]: "and_then (Inl e) f = Inl e"
  by (simp add: and_then_def)

lemma and_then_Inr [simp]: "and_then (Inr x) f = f x"
  by (simp add: and_then_def)

text \<open>
  The members of \<^verbatim>\<open>class ReturnBodyContext\<close>. \<open>storage\<close> is the next free uid of the
  \<^verbatim>\<open>AstTreeStorage\<close>; a \<^verbatim>\<open>Where\<close> node is the expression it holds.
\<close>

record return_body_context =
  body :: return_body
  symbol_table :: symbol_table
  bound_symbols :: symbol_set
  storage :: nat
  where_clause :: "expression option"
  used_symbols :: symbol_set
  output_symbols :: "symbol list"
  aggregations :: "aggregate_element list"
  group_by :: "expression list"
  has_aggregation :: "bool list"
  named_expressions :: "named_expression list"

type_synonym visit = "return_body_context \<Rightarrow> failure + return_body_context"

definition emplace_flag :: "bool \<Rightarrow> return_body_context \<Rightarrow> return_body_context" where
  "emplace_flag b c = c\<lparr>has_aggregation := has_aggregation c @ [b]\<rparr>"

text \<open>\<^verbatim>\<open>has_aggregation_.back()\<close> followed by \<^verbatim>\<open>has_aggregation_.pop_back()\<close>.\<close>

definition pop_flag :: "return_body_context \<Rightarrow> failure + (bool \<times> return_body_context)" where
  "pop_flag c =
     (if has_aggregation c = [] then Inl Undefined
      else Inr (last (has_aggregation c), c\<lparr>has_aggregation := butlast (has_aggregation c)\<rparr>))"

text \<open>
  The loop of the collection visitors: step back \<open>n\<close> flags from the end, erase them
  one by one while OR-ing them, and emplace the result.
\<close>

definition erase_last_flags :: "nat \<Rightarrow> return_body_context \<Rightarrow> return_body_context" where
  "erase_last_flags n c =
     (let h = has_aggregation c;
          has_aggr = list_ex (\<lambda>b. b) (drop (length h - n) h)
      in c\<lparr>has_aggregation := take (length h - n) h @ [has_aggr]\<rparr>)"

definition Visit_PrimitiveLiteral :: visit where
  "Visit_PrimitiveLiteral c = Inr (emplace_flag False c)"

definition PostVisit_ListLiteral :: "expression list \<Rightarrow> visit" where
  "PostVisit_ListLiteral elements c =
     (if length elements \<le> length (has_aggregation c) then Inr (erase_last_flags (length elements) c)
      else Inl (CheckFailed ''Expected has_aggregation_ flags as much as there are list elements.''))"

definition PostVisit_MapLiteral :: "(string \<times> expression) list \<Rightarrow> visit" where
  "PostVisit_MapLiteral elements c =
     (if length elements \<le> length (has_aggregation c) then Inr (erase_last_flags (length elements) c)
      else Inl (CheckFailed ''Expected has_aggregation_ flags as much as there are map elements.''))"

definition PostVisit_All :: "ast_identifier \<Rightarrow> visit" where
  "PostVisit_All ident c =
     and_then (at (symbol_table c) (uid ident)) (\<lambda>smb.
       let c1 = c\<lparr>used_symbols := erase_symbol smb (used_symbols c)\<rparr>
       in if 3 \<le> length (has_aggregation c1) then Inr (erase_last_flags 3 c1)
          else Inl (CheckFailed ''Expected 3 has_aggregation_ flags for ALL arguments''))"

definition Visit_Identifier :: "ast_identifier \<Rightarrow> visit" where
  "Visit_Identifier ident c =
     and_then (at (symbol_table c) (uid ident)) (\<lambda>smb.
       let c1 = (if smb \<notin> set (output_symbols c)
                 then c\<lparr>used_symbols := fst (insert_symbol smb (used_symbols c))\<rparr> else c)
       in Inr (emplace_flag False c1))"

definition PostVisit_Function :: "expression list \<Rightarrow> visit" where
  "PostVisit_Function arguments c =
     (if length arguments \<le> length (has_aggregation c) then Inr (erase_last_flags (length arguments) c)
      else Inl (CheckFailed ''Expected has_aggregation_ flags as much as there are function arguments.''))"

text \<open>The macro \<^verbatim>\<open>VISIT_BINARY_OPERATOR\<close>, the same body for each of the sixteen operators.\<close>

definition PostVisit_BinaryOperator :: "expression \<Rightarrow> expression \<Rightarrow> visit" where
  "PostVisit_BinaryOperator expression1 expression2 c =
     (if 2 \<le> length (has_aggregation c) then
        and_then (pop_flag c) (\<lambda>(aggr2, c1).
        and_then (pop_flag c1) (\<lambda>(aggr1, c2).
          let has_aggr = (aggr1 \<or> aggr2);
              c3 = (if has_aggr \<and> \<not> (aggr1 \<and> aggr2)
                    then c2\<lparr>group_by := group_by c2 @ [if aggr1 then expression2 else expression1]\<rparr>
                    else c2)
          in Inr (emplace_flag has_aggr c3)))
      else Inl (CheckFailed ''Expected at least 2 has_aggregation_ flags.''))"

definition PostVisit_Aggregation ::
  "nat \<Rightarrow> expression option \<Rightarrow> expression option \<Rightarrow> aggregation_op \<Rightarrow> visit" where
  "PostVisit_Aggregation aggr_uid expression1 expression2 op c =
     and_then (at (symbol_table c) aggr_uid) (\<lambda>smb.
       let c1 = c\<lparr>aggregations := aggregations c @
                  [\<lparr>agg_value = expression1, agg_key = expression2, agg_op = op, output_sym = smb\<rparr>]\<rparr>
       in and_then (if op = Op_COLLECT_MAP then and_then (pop_flag c1) (\<lambda>(b, c2). Inr c2) else Inr c1) (\<lambda>c2.
            if expression1 \<noteq> None
            then and_then (pop_flag c2) (\<lambda>(b, c3). Inr (emplace_flag True c3))
            else Inr (emplace_flag True c2)))"

definition PostVisit_NamedExpression :: "named_expression \<Rightarrow> visit" where
  "PostVisit_NamedExpression named_expr c =
     (if length (has_aggregation c) = 1 then
        and_then (pop_flag c) (\<lambda>(b, c1).
          Inr (if \<not> b then c1\<lparr>group_by := group_by c1 @ [ne_expression named_expr]\<rparr> else c1))
      else Inl (CheckFailed ''Expected to reduce has_aggregation_ to single boolean.''))"

definition Visit_ParameterLookup :: visit where
  "Visit_ParameterLookup c = Inr (emplace_flag False c)"

text \<open>
  Modelled from the spec: the \<^verbatim>\<open>Accept\<close> methods of the AST nodes are declared outside
  the planner. The traversal is post-order: a leaf calls \<^verbatim>\<open>Visit\<close>; a composite node
  calls \<^verbatim>\<open>PreVisit\<close>, then, when that returned true, \<^verbatim>\<open>Accept\<close> on each child from
  left to right, then \<^verbatim>\<open>PostVisit\<close>. The classifier overrides \<^verbatim>\<open>PreVisit\<close> for list
  slicing and for \<^verbatim>\<open>IfOperator\<close> only; there it walks the children itself and returns
  false. Every \<^verbatim>\<open>Visit\<close> and \<^verbatim>\<open>PostVisit\<close> of the classifier returns true, so no
  traversal is cut short. Nodes without an override (unary operators, property
  lookup) leave the flag of their child on the stack. \<^verbatim>\<open>Visit(CreateIndex&)\<close> is an
  override for a clause, which no expression contains.
\<close>

fun Accept :: "expression \<Rightarrow> visit"
  and Accept_list :: "expression list \<Rightarrow> visit"
  and Accept_map :: "(string \<times> expression) list \<Rightarrow> visit"
where
  "Accept (PrimitiveLiteral v) c = Visit_PrimitiveLiteral c"
| "Accept (ListLiteral elements) c =
     and_then (Accept_list elements c) (PostVisit_ListLiteral elements)"
| "Accept (MapLiteral elements) c =
     and_then (Accept_map elements c) (PostVisit_MapLiteral elements)"
| "Accept (Identifier ident) c = Visit_Identifier ident c"
| "Accept (ParameterLookup pos) c = Visit_ParameterLookup c"
| "Accept (PropertyLookup e prop) c = Accept e c"
| "Accept (UnaryOperator op e) c = Accept e c"
| "Accept (BinaryOperator op expression1 expression2) c =
     and_then (Accept expression1 c) (\<lambda>c1.
     and_then (Accept expression2 c1) (PostVisit_BinaryOperator expression1 expression2))"
| "Accept (ListSlicingOperator list lower_bound upper_bound) c =
     and_then (Accept list c) (\<lambda>c1.
     and_then (pop_flag c1) (\<lambda>(list_has_aggr, c2).
     and_then (case lower_bound of
                 None \<Rightarrow> Inr (list_has_aggr, c2)
               | Some lb \<Rightarrow>
                   and_then (Accept lb c2) (\<lambda>c3.
                   and_then (pop_flag c3) (\<lambda>(b, c4). Inr (list_has_aggr \<or> b, c4)))) (\<lambda>(has_aggr1, c5).
     and_then (case upper_bound of
                 None \<Rightarrow> Inr (has_aggr1, c5)
               | Some ub \<Rightarrow>
                   and_then (Accept ub c5) (\<lambda>c6.
                   and_then (pop_flag c6) (\<lambda>(b, c7). Inr (has_aggr1 \<or> b, c7)))) (\<lambda>(has_aggr, c8).
       let c9 = (if has_aggr \<and> \<not> list_has_aggr then c8\<lparr>group_by := group_by c8 @ [list]\<rparr> else c8)
       in Inr (emplace_flag has_aggr c9)))))"
| "Accept (IfOperator condition then_expression else_expression) c =
     and_then (Accept condition c) (\<lambda>c1.
     and_then (pop_flag c1) (\<lambda>(b1, c2).
     and_then (Accept then_expression c2) (\<lambda>c3.
     and_then (pop_flag c3) (\<lambda>(b2, c4).
     and_then (Accept else_expression c4) (\<lambda>c5.
     and_then (pop_flag c5) (\<lambda>(b3, c6).
       let has_aggr = (b1 \<or> b2 \<or> b3)
       in if \<not> has_aggr then Inr (emplace_flag has_aggr c6)
          else Inl (CheckFailed ''Currently aggregations in CASE are not allowed'')))))))"
| "Accept (Function fname arguments) c =
     and_then (Accept_list arguments c) (PostVisit_Function arguments)"
| "Accept (All ident list_expression where_expression) c =
     and_then (Visit_Identifier ident c) (\<lambda>c1.
     and_then (Accept list_expression c1) (\<lambda>c2.
     and_then (Accept where_expression c2) (PostVisit_All ident)))"
| "Accept (Aggregation aggr_uid expression1 expression2 op) c =
     and_then (case expression1 of None \<Rightarrow> Inr c | Some e1 \<Rightarrow> Accept e1 c) (\<lambda>c1.
     and_then (case expression2 of None \<Rightarrow> Inr c1 | Some e2 \<Rightarrow> Accept e2 c1)
       (PostVisit_Aggregation aggr_uid expression1 expression2 op))"
| "Accept_list [] c = Inr c"
| "Accept_list (e # es) c = and_then (Accept e c) (Accept_list es)"
| "Accept_map [] c = Inr c"
| "Accept_map (kv # kvs) c = and_then (Accept (snd kv) c) (Accept_map kvs)"

definition Accept_NamedExpression :: "named_expression \<Rightarrow> visit" where
  "Accept_NamedExpression named_expr c =
     and_then (Accept (ne_expression named_expr) c) (PostVisit_NamedExpression named_expr)"

text \<open>
  Modelled from the spec: \<^verbatim>\<open>AstTreeStorage::Create\<close> is declared outside the planner; it
  allocates a node under a fresh uid, here the next free one. The identifier it
  creates is user declared, the default of the constructor. \<^verbatim>\<open>std::sort\<close> is
  \<open>sort_key\<close>; strings compare as \<^verbatim>\<open>std::string\<close> does, byte by byte, a proper prefix
  first. The order \<^verbatim>\<open>std::sort\<close> gives to elements of equal name is unspecified;
  \<open>sort_key\<close> keeps them as they were.
\<close>

definition expand_symbol :: "symbol \<Rightarrow> return_body_context \<Rightarrow> return_body_context" where
  "expand_symbol smb c =
     (if \<not> user_declared smb then c
      else let ident = Ident (storage c) (name smb) True;
               named_expr = NamedExpression (Suc (storage c)) (name smb) (Identifier ident)
           in c\<lparr>symbol_table := (symbol_table c)(storage c \<mapsto> smb, Suc (storage c) \<mapsto> smb),
                storage := Suc (Suc (storage c)),
                named_expressions := named_expressions c @ [named_expr],
                output_symbols := output_symbols c @ [smb],
                used_symbols := fst (insert_symbol smb (used_symbols c)),
                group_by := group_by c @ [Identifier ident]\<rparr>)"

definition ExpandUserSymbols :: visit where
  "ExpandUserSymbols c =
     (if named_expressions c \<noteq> []
      then Inl (CheckFailed ''ExpandUserSymbols should be first to fill named_expressions_'')
      else if output_symbols c \<noteq> []
      then Inl (CheckFailed ''ExpandUserSymbols should be first to fill output_symbols_'')
      else let c1 = fold expand_symbol (bound_symbols c) c
           in Inr (c1\<lparr>output_symbols := sort_key name (output_symbols c1),
                      named_expressions := sort_key ne_name (named_expressions c1)\<rparr>))"

definition collect_named_expression :: "named_expression \<Rightarrow> visit" where
  "collect_named_expression named_expr c =
     and_then (at (symbol_table c) (ne_uid named_expr)) (\<lambda>smb.
     and_then (Accept_NamedExpression named_expr (c\<lparr>output_symbols := output_symbols c @ [smb]\<rparr>)) (\<lambda>c1.
       Inr (c1\<lparr>named_expressions := named_expressions c1 @ [named_expr]\<rparr>)))"

fun collect_named_expressions :: "named_expression list \<Rightarrow> visit" where
  "collect_named_expressions [] c = Inr c"
| "collect_named_expressions (named_expr # rest) c =
     and_then (collect_named_expression named_expr c) (collect_named_expressions rest)"

fun visit_order_by :: "(ordering \<times> expression) list \<Rightarrow> visit" where
  "visit_order_by [] c = Inr c"
| "visit_order_by (order_pair # rest) c =
     and_then (Accept (snd order_pair) c) (visit_order_by rest)"

definition visit_where :: "expression option \<Rightarrow> visit" where
  "visit_where w c = (case w of None \<Rightarrow> Inr c | Some e \<Rightarrow> Accept e c)"

definition initial_context ::
  "return_body \<Rightarrow> symbol_table \<Rightarrow> symbol_set \<Rightarrow> nat \<Rightarrow> expression option \<Rightarrow> return_body_context" where
  "initial_context b table bound st w =
     \<lparr>body = b, symbol_table = table, bound_symbols = bound, storage = st, where_clause = w,
      used_symbols = [], output_symbols = [], aggregations = [], group_by = [],
      has_aggregation = [], named_expressions = []\<rparr>"

text \<open>The first half of the constructor: \<^verbatim>\<open>*\<close> expansion, then the named expressions.\<close>

definition collect_output :: "return_body \<Rightarrow> visit" where
  "collect_output b c0 =
     and_then (if body_all_identifiers b then ExpandUserSymbols c0 else Inr c0)
       (collect_named_expressions (body_named_expressions b))"

definition ReturnBodyContext ::
  "return_body \<Rightarrow> symbol_table \<Rightarrow> symbol_set \<Rightarrow> nat \<Rightarrow> expression option
     \<Rightarrow> failure + return_body_context" where
  "ReturnBodyContext b table bound st w =
     and_then (collect_output b (initial_context b table bound st w)) (\<lambda>c2.
       if aggregations c2 = [] then
         and_then (visit_order_by (body_order_by b) c2) (\<lambda>c3.
         and_then (visit_where w c3) (\<lambda>c4.
           if aggregations c4 = [] then Inr c4
           else Inl (CheckFailed ''Unexpected aggregations in ORDER BY or WHERE'')))
       else Inr c2)"

section \<open>Emitting operators\<close>

definition GenReturnBody ::
  "logical_operator option \<Rightarrow> bool \<Rightarrow> return_body_context \<Rightarrow> bool \<Rightarrow> logical_operator option" where
  "GenReturnBody input_op advance_command c accumulate =
     (let used = used_symbols c;
          op1 = (if accumulate then Some (Accumulate input_op used advance_command) else input_op);
          op2 = (if aggregations c \<noteq> []
                 then Some (Aggregate op1 (aggregations c) (group_by c) used) else op1);
          op3 = Some (Produce op2 (named_expressions c));
          op4 = (if body_distinct (body c) then Some (Distinct op3 (output_symbols c)) else op3);
          op5 = (if body_order_by (body c) \<noteq> []
                 then Some (OrderBy op4 (body_order_by (body c)) (output_symbols c)) else op4);
          op6 = (case body_skip (body c) of Some e \<Rightarrow> Some (Skip op5 e) | None \<Rightarrow> op5);
          op7 = (case body_limit (body c) of Some e \<Rightarrow> Some (Limit op6 e) | None \<Rightarrow> op6)
      in case where_clause c of Some e \<Rightarrow> Some (Filter op7 e) | None \<Rightarrow> op7)"

definition GenReturn ::
  "return_body \<Rightarrow> logical_operator option \<Rightarrow> symbol_table \<Rightarrow> bool \<Rightarrow> symbol_set \<Rightarrow> nat
     \<Rightarrow> failure + (logical_operator option \<times> symbol_table \<times> nat)" where
  "GenReturn ret_body input_op table is_write bound st =
     (let accumulate = is_write;
          advance_command = False
      in and_then (ReturnBodyContext ret_body table bound st None) (\<lambda>c.
           Inr (GenReturnBody input_op advance_command c accumulate, symbol_table c, storage c)))"

text \<open>
  \<^verbatim>\<open>GenWith\<close> clears the bound symbols and inserts the output symbols one by one.
\<close>

definition GenWith ::
  "return_body \<Rightarrow> expression option \<Rightarrow> logical_operator option \<Rightarrow> symbol_table \<Rightarrow> bool
     \<Rightarrow> symbol_set \<Rightarrow> nat
     \<Rightarrow> failure + (logical_operator option \<times> symbol_set \<times> symbol_table \<times> nat)" where
  "GenWith with_body with_where input_op table is_write bound st =
     (let accumulate = is_write;
          advance_command = is_write
      in and_then (ReturnBodyContext with_body table bound st with_where) (\<lambda>c.
           let last_op = GenReturnBody input_op advance_command c accumulate;
               bound1 = fold (\<lambda>smb b. fst (insert_symbol smb b)) (output_symbols c) []
           in Inr (last_op, bound1, symbol_table c, storage c)))"

subsection \<open>Filters\<close>

record filter_info =
  filter_expression :: expression
  filter_used_symbols :: symbol_set

fun all_bound :: "symbol_set \<Rightarrow> symbol list \<Rightarrow> bool" where
  "all_bound bound [] = True"
| "all_bound bound (s # rest) = (if s \<notin> set bound then False else all_bound bound rest)"

definition HasBoundFilterSymbols :: "symbol_set \<Rightarrow> filter_info \<Rightarrow> bool" where
  "HasBoundFilterSymbols bound f = all_bound bound (filter_used_symbols f)"

text \<open>
  Modelled from the spec: \<^verbatim>\<open>BoolJoin\<close> is declared in the planner's header. It joins two
  predicates into a single one: a fresh operator node over both when both are
  there, otherwise the one that is there.
\<close>

definition BoolJoin ::
  "binary_op \<Rightarrow> nat \<Rightarrow> expression option \<Rightarrow> expression option \<Rightarrow> expression option \<times> nat" where
  "BoolJoin bop st expr1 expr2 =
     (case (expr1, expr2) of
        (Some e1, Some e2) \<Rightarrow> (Some (BinaryOperator bop e1 e2), Suc st)
      | (Some e1, None) \<Rightarrow> (expr1, st)
      | (None, _) \<Rightarrow> (expr2, st))"

text \<open>
  The loop of \<^verbatim>\<open>ExtractFilters\<close>: the predicate joined so far and the storage are
  carried along; the filters that stay are returned in their order.
\<close>

fun ExtractFilters_loop ::
  "symbol_set \<Rightarrow> filter_info list \<Rightarrow> expression option \<Rightarrow> nat
     \<Rightarrow> expression option \<times> filter_info list \<times> nat" where
  "ExtractFilters_loop bound [] filter_expr st = (filter_expr, [], st)"
| "ExtractFilters_loop bound (f # rest) filter_expr st =
     (if HasBoundFilterSymbols bound f then
        (case BoolJoin AndOperator st filter_expr (Some (filter_expression f)) of
           (joined, st1) \<Rightarrow> ExtractFilters_loop bound rest joined st1)
      else
        (case ExtractFilters_loop bound rest filter_expr st of
           (res, kept, st1) \<Rightarrow> (res, f # kept, st1)))"

definition ExtractFilters ::
  "symbol_set \<Rightarrow> filter_info list \<Rightarrow> nat \<Rightarrow> expression option \<times> filter_info list \<times> nat" where
  "ExtractFilters bound filters st = ExtractFilters_loop bound filters None st"

definition GenFilters ::
  "logical_operator option \<Rightarrow> symbol_set \<Rightarrow> filter_info list \<Rightarrow> nat
     \<Rightarrow> logical_operator option \<times> filter_info list \<times> nat" where
  "GenFilters last_op bound filters st =
     (case ExtractFilters bound filters st of
        (filter_expr, kept, st1) \<Rightarrow>
          (case filter_expr of
             Some e \<Rightarrow> (Some (Filter last_op e), kept, st1)
           | None \<Rightarrow> (last_op, kept, st1)))"

subsection \<open>Named paths\<close>

text \<open>
  \<^verbatim>\<open>std::unordered_map<Symbol, std::vector<Symbol>>\<close> is the list of its entries in
  iteration order. The result is the operator tail, the bound symbols and the
  entries that stay pending.
\<close>

type_synonym named_paths = "(symbol \<times> symbol list) list"

fun GenNamedPaths ::
  "logical_operator option \<Rightarrow> symbol_set \<Rightarrow> named_paths
     \<Rightarrow> logical_operator option \<times> symbol_set \<times> named_paths" where
  "GenNamedPaths last_op bound [] = (last_op, bound, [])"
| "GenNamedPaths last_op bound (named_path # rest) =
     (if all_bound bound (snd named_path) then
        GenNamedPaths (Some (ConstructNamedPath last_op (fst named_path) (snd named_path)))
          (fst (insert_symbol (fst named_path) bound)) rest
      else
        (case GenNamedPaths last_op bound rest of
           (op, bound1, pending) \<Rightarrow> (op, bound1, named_path # pending)))"

subsection \<open>CREATE\<close>

text \<open>
  \<^verbatim>\<open>ReducePattern\<close>: \<open>base\<close> on the first node, \<open>collect\<close> on every following
  (edge, node) pair. Both closures of \<^verbatim>\<open>GenCreateForPattern\<close> write to the bound
  symbols, which are threaded through as \<open>'s\<close>. A failed \<^verbatim>\<open>dynamic_cast\<close> yields a
  null pointer, which the next \<^verbatim>\<open>DCHECK\<close> rejects.
\<close>

fun ReducePattern_loop ::
  "('t \<Rightarrow> node_atom \<Rightarrow> edge_atom \<Rightarrow> node_atom \<Rightarrow> 's \<Rightarrow> failure + ('t \<times> 's))
     \<Rightarrow> 't \<Rightarrow> node_atom \<Rightarrow> pattern_atom list \<Rightarrow> 's \<Rightarrow> failure + ('t \<times> 's)" where
  "ReducePattern_loop collect last_res current_node [] s = Inr (last_res, s)"
| "ReducePattern_loop collect last_res current_node (Node n # rest) s =
     Inl (CheckFailed ''Expected an edge atom in pattern.'')"
| "ReducePattern_loop collect last_res current_node [Edge e] s =
     Inl (CheckFailed ''Edge atom should not end the pattern.'')"
| "ReducePattern_loop collect last_res current_node (Edge e # Edge e' # rest) s =
     Inl (CheckFailed ''Expected a node atom in pattern.'')"
| "ReducePattern_loop collect last_res current_node (Edge e # Node n # rest) s =
     and_then (collect last_res current_node e n s) (\<lambda>(res, s1).
       ReducePattern_loop collect res n rest s1)"

definition ReducePattern ::
  "pattern \<Rightarrow> (node_atom \<Rightarrow> 's \<Rightarrow> failure + ('t \<times> 's))
     \<Rightarrow> ('t \<Rightarrow> node_atom \<Rightarrow> edge_atom \<Rightarrow> node_atom \<Rightarrow> 's \<Rightarrow> failure + ('t \<times> 's))
     \<Rightarrow> 's \<Rightarrow> failure + ('t \<times> 's)" where
  "ReducePattern p base collect s =
     (case pattern_atoms p of
        [] \<Rightarrow> Inl (CheckFailed ''Missing atoms in pattern'')
      | Edge e # rest \<Rightarrow> Inl (CheckFailed ''First pattern atom is not a node'')
      | Node current_node # rest \<Rightarrow>
          and_then (base current_node s) (\<lambda>(last_res, s1).
            ReducePattern_loop collect last_res current_node rest s1))"

definition create_base ::
  "symbol_table \<Rightarrow> logical_operator option \<Rightarrow> node_atom \<Rightarrow> symbol_set
     \<Rightarrow> failure + (logical_operator option \<times> symbol_set)" where
  "create_base table input_op node bound =
     and_then (at table (uid (node_identifier node))) (\<lambda>smb.
       case insert_symbol smb bound of
         (bound1, inserted) \<Rightarrow>
           if inserted then Inr (Some (CreateNode node input_op), bound1)
           else Inr (input_op, bound1))"

definition create_collect ::
  "symbol_table \<Rightarrow> logical_operator option \<Rightarrow> node_atom \<Rightarrow> edge_atom \<Rightarrow> node_atom \<Rightarrow> symbol_set
     \<Rightarrow> failure + (logical_operator option \<times> symbol_set)" where
  "create_collect table last_op prev_node edge node bound =
     and_then (at table (uid (node_identifier prev_node))) (\<lambda>input_symbol.
     and_then (at table (uid (node_identifier node))) (\<lambda>node_symbol.
       case insert_symbol node_symbol bound of
         (bound1, node_inserted) \<Rightarrow>
           let node_existing = (if \<not> node_inserted then True else False)
           in and_then (at table (uid (edge_identifier edge))) (\<lambda>edge_symbol.
                case insert_symbol edge_symbol bound1 of
                  (bound2, edge_inserted) \<Rightarrow>
                    if \<not> edge_inserted
                    then Inl (FatalLog ''Symbols used for created edges cannot be redeclared.'')
                    else Inr (Some (CreateExpand node edge last_op input_symbol node_existing),
                              bound2))))"

fun path_elements :: "symbol_table \<Rightarrow> pattern_atom list \<Rightarrow> failure + symbol list" where
  "path_elements table [] = Inr []"
| "path_elements table (atom # rest) =
     and_then (at table (uid (atom_identifier atom))) (\<lambda>smb.
     and_then (path_elements table rest) (\<lambda>elements. Inr (smb # elements)))"

definition GenCreateForPattern ::
  "pattern \<Rightarrow> logical_operator option \<Rightarrow> symbol_table \<Rightarrow> symbol_set
     \<Rightarrow> failure + (logical_operator option \<times> symbol_set)" where
  "GenCreateForPattern p input_op table bound =
     and_then (ReducePattern p (create_base table input_op) (create_collect table) bound)
       (\<lambda>(last_op, bound1).
          if ident_user_declared (pattern_identifier p) then
            and_then (path_elements table (pattern_atoms p)) (\<lambda>elements.
            and_then (at table (uid (pattern_identifier p))) (\<lambda>path_symbol.
              Inr (Some (ConstructNamedPath last_op path_symbol elements), bound1)))
          else Inr (last_op, bound1))"

fun GenCreate ::
  "pattern list \<Rightarrow> logical_operator option \<Rightarrow> symbol_table \<Rightarrow> symbol_set
     \<Rightarrow> failure + (logical_operator option \<times> symbol_set)" where
  "GenCreate [] last_op table bound = Inr (last_op, bound)"
| "GenCreate (p # rest) last_op table bound =
     and_then (GenCreateForPattern p last_op table bound) (\<lambda>(op, bound1).
       GenCreate rest op table bound1)"

section \<open>Reading a plan\<close>

text \<open>
  The operators of a plan from the top down, following the input of each, and their
  names.
\<close>

datatype operator_name =
    ScanAll_name | Accumulate_name | Aggregate_name | Produce_name | Distinct_name
  | OrderBy_name | Skip_name | Limit_name | Filter_name | ConstructNamedPath_name
  | CreateNode_name | CreateExpand_name

fun name_of :: "logical_operator \<Rightarrow> operator_name" where
  "name_of (ScanAll s) = ScanAll_name"
| "name_of (Accumulate i u a) = Accumulate_name"
| "name_of (Aggregate i a g u) = Aggregate_name"
| "name_of (Produce i n) = Produce_name"
| "name_of (Distinct i s) = Distinct_name"
| "name_of (OrderBy i ob s) = OrderBy_name"
| "name_of (Skip i e) = Skip_name"
| "name_of (Limit i e) = Limit_name"
| "name_of (Filter i e) = Filter_name"
| "name_of (ConstructNamedPath i p ps) = ConstructNamedPath_name"
| "name_of (CreateNode n i) = CreateNode_name"
| "name_of (CreateExpand n e i s b) = CreateExpand_name"

fun input :: "logical_operator \<Rightarrow> logical_operator option" where
  "input (ScanAll s) = None"
| "input (Accumulate i u a) = i"
| "input (Aggregate i a g u) = i"
| "input (Produce i n) = i"
| "input (Distinct i s) = i"
| "input (OrderBy i ob s) = i"
| "input (Skip i e) = i"
| "input (Limit i e) = i"
| "input (Filter i e) = i"
| "input (ConstructNamedPath i p ps) = i"
| "input (CreateNode n i) = i"
| "input (CreateExpand n e i s b) = i"

fun pipeline :: "logical_operator \<Rightarrow> logical_operator list" where
  "pipeline (ScanAll s) = [ScanAll s]"
| "pipeline (Accumulate i u a) =
     Accumulate i u a # (case i of None \<Rightarrow> [] | Some x \<Rightarrow> pipeline x)"
| "pipeline (Aggregate i a g u) =
     Aggregate i a g u # (case i of None \<Rightarrow> [] | Some x \<Rightarrow> pipeline x)"
| "pipeline (Produce i n) =
     Produce i n # (case i of None \<Rightarrow> [] | Some x \<Rightarrow> pipeline x)"
| "pipeline (Distinct i s) =
     Distinct i s # (case i of None \<Rightarrow> [] | Some x \<Rightarrow> pipeline x)"
| "pipeline (OrderBy i ob s) =
     OrderBy i ob s # (case i of None \<Rightarrow> [] | Some x \<Rightarrow> pipeline x)"
| "pipeline (Skip i e) =
     Skip i e # (case i of None \<Rightarrow> [] | Some x \<Rightarrow> pipeline x)"
| "pipeline (Limit i e) =
     Limit i e # (case i of None \<Rightarrow> [] | Some x \<Rightarrow> pipeline x)"
| "pipeline (Filter i e) =
     Filter i e # (case i of None \<Rightarrow> [] | Some x \<Rightarrow> pipeline x)"
| "pipeline (ConstructNamedPath i p ps) =
     ConstructNamedPath i p ps # (case i of None \<Rightarrow> [] | Some x \<Rightarrow> pipeline x)"
| "pipeline (CreateNode n i) =
     CreateNode n i # (case i of None \<Rightarrow> [] | Some x \<Rightarrow> pipeline x)"
| "pipeline (CreateExpand n e i s b) =
     CreateExpand n e i s b # (case i of None \<Rightarrow> [] | Some x \<Rightarrow> pipeline x)"

definition plan :: "logical_operator option \<Rightarrow> logical_operator list" where
  "plan p = (case p of None \<Rightarrow> [] | Some x \<Rightarrow> pipeline x)"

text \<open>
  A layer is an operator waiting for its input; a list of layers is stacked bottom
  first.
\<close>

type_synonym layer = "logical_operator option \<Rightarrow> logical_operator"

definition stack_layers :: "layer list \<Rightarrow> logical_operator option \<Rightarrow> logical_operator option" where
  "stack_layers ls i = fold (\<lambda>l x. Some (l x)) ls i"

text \<open>
  The order the specification gives for a return body, bottom first, each operator
  with the data it is built from.
\<close>

definition return_body_layers :: "bool \<Rightarrow> return_body_context \<Rightarrow> bool \<Rightarrow> layer list" where
  "return_body_layers advance_command c accumulate =
     (if accumulate then [\<lambda>i. Accumulate i (used_symbols c) advance_command] else []) @
     (if aggregations c \<noteq> []
      then [\<lambda>i. Aggregate i (aggregations c) (group_by c) (used_symbols c)] else []) @
     [\<lambda>i. Produce i (named_expressions c)] @
     (if body_distinct (body c) then [\<lambda>i. Distinct i (output_symbols c)] else []) @
     (if body_order_by (body c) \<noteq> []
      then [\<lambda>i. OrderBy i (body_order_by (body c)) (output_symbols c)] else []) @
     (case body_skip (body c) of Some e \<Rightarrow> [\<lambda>i. Skip i e] | None \<Rightarrow> []) @
     (case body_limit (body c) of Some e \<Rightarrow> [\<lambda>i. Limit i e] | None \<Rightarrow> []) @
     (case where_clause c of Some e \<Rightarrow> [\<lambda>i. Filter i e] | None \<Rightarrow> [])"

text \<open>The same order read from the top, by name.\<close>

definition return_body_names :: "return_body_context \<Rightarrow> bool \<Rightarrow> operator_name list" where
  "return_body_names c accumulate =
     (if where_clause c \<noteq> None then [Filter_name] else []) @
     (if body_limit (body c) \<noteq> None then [Limit_name] else []) @
     (if body_skip (body c) \<noteq> None then [Skip_name] else []) @
     (if body_order_by (body c) \<noteq> [] then [OrderBy_name] else []) @
     (if body_distinct (body c) then [Distinct_name] else []) @
     [Produce_name] @
     (if aggregations c \<noteq> [] then [Aggregate_name] else []) @
     (if accumulate then [Accumulate_name] else [])"

section \<open>Specification vocabulary\<close>

text \<open>A filter whose free symbols are all bound, and the AND-join of a list of predicates.\<close>

definition symbols_bound :: "symbol_set \<Rightarrow> filter_info \<Rightarrow> bool" where
  "symbols_bound bound f = (set (filter_used_symbols f) \<subseteq> set bound)"

fun and_join :: "expression list \<Rightarrow> expression option" where
  "and_join [] = None"
| "and_join (e # es) = Some (foldl (BinaryOperator AndOperator) e es)"

text \<open>
  The pending paths a pass constructed: those it did not leave pending. Each one
  becomes a \<open>ConstructNamedPath\<close> over the tail.
\<close>

definition constructed_paths :: "named_paths \<Rightarrow> named_paths \<Rightarrow> named_paths" where
  "constructed_paths paths pending = filter (\<lambda>np. np \<notin> set pending) paths"

definition path_layer :: "symbol \<times> symbol list \<Rightarrow> layer" where
  "path_layer np = (\<lambda>i. ConstructNamedPath i (fst np) (snd np))"

text \<open>
  CREATE, as the specification words it: the symbol of an identifier; the (edge,
  node) pairs that follow the first node, and the atoms such pairs stand for; one
  \<open>CreateExpand\<close> per pair, where \<open>seen\<close> holds the symbols bound before the pair;
  and the whole pattern, bottom first: the \<open>CreateNode\<close> of the first node unless its
  symbol was bound, the expansions, and the named path when the pattern identifier
  is user declared.
\<close>

definition symbol_of :: "symbol_table \<Rightarrow> ast_identifier \<Rightarrow> symbol" where
  "symbol_of table ident = the (table (uid ident))"

fun triples_of :: "pattern_atom list \<Rightarrow> (edge_atom \<times> node_atom) list" where
  "triples_of (Edge e # Node n # rest) = (e, n) # triples_of rest"
| "triples_of atoms = []"

fun expand_layers ::
  "symbol_table \<Rightarrow> symbol set \<Rightarrow> node_atom \<Rightarrow> (edge_atom \<times> node_atom) list \<Rightarrow> layer list" where
  "expand_layers table seen prev [] = []"
| "expand_layers table seen prev ((e, n) # rest) =
     (\<lambda>i. CreateExpand n e i (symbol_of table (node_identifier prev))
            (symbol_of table (node_identifier n) \<in> seen))
     # expand_layers table
         (insert (symbol_of table (edge_identifier e))
            (insert (symbol_of table (node_identifier n)) seen)) n rest"

definition create_layers :: "symbol_table \<Rightarrow> symbol_set \<Rightarrow> pattern \<Rightarrow> layer list" where
  "create_layers table bound p =
     (case pattern_atoms p of
        Node first # rest \<Rightarrow>
          (if symbol_of table (node_identifier first) \<in> set bound then []
           else [\<lambda>i. CreateNode first i]) @
          expand_layers table (insert (symbol_of table (node_identifier first)) (set bound))
            first (triples_of rest) @
          (if ident_user_declared (pattern_identifier p)
           then [\<lambda>i. ConstructNamedPath i (symbol_of table (pattern_identifier p))
                       (map (\<lambda>a. symbol_of table (atom_identifier a)) (pattern_atoms p))]
           else [])
      | _ \<Rightarrow> [])"

definition atoms_of :: "(edge_atom \<times> node_atom) list \<Rightarrow> pattern_atom list" where
  "atoms_of triples = concat (map (\<lambda>(e, n). [Edge e, Node n]) triples)"

definition redeclared :: string where
  "redeclared = ''Symbols used for created edges cannot be redeclared.''"

text \<open>
  The patterns \<^verbatim>\<open>GenCreateForPattern\<close> plans: no edge of a pair has a symbol that is
  bound when the pair is reached, where \<open>seen\<close> holds the symbols bound before the
  pair and the node of the pair is bound before its edge; and the pattern is a first
  node followed by (edge, node) pairs, every atom has a symbol, a user-declared
  pattern identifier has one, and the edges are fresh in this sense.
\<close>

fun edges_fresh :: "symbol_table \<Rightarrow> symbol set \<Rightarrow> (edge_atom \<times> node_atom) list \<Rightarrow> bool" where
  "edges_fresh table seen [] = True"
| "edges_fresh table seen ((e, n) # rest) =
     (symbol_of table (edge_identifier e) \<notin> insert (symbol_of table (node_identifier n)) seen \<and>
      edges_fresh table
        (insert (symbol_of table (edge_identifier e))
           (insert (symbol_of table (node_identifier n)) seen)) rest)"

definition creatable :: "symbol_table \<Rightarrow> symbol_set \<Rightarrow> pattern \<Rightarrow> bool" where
  "creatable table bound p =
     (case pattern_atoms p of
        Node first # rest \<Rightarrow>
          rest = atoms_of (triples_of rest) \<and>
          list_all (\<lambda>a. table (uid (atom_identifier a)) \<noteq> None) (pattern_atoms p) \<and>
          (if ident_user_declared (pattern_identifier p)
           then table (uid (pattern_identifier p)) \<noteq> None else True) \<and>
          edges_fresh table (insert (symbol_of table (node_identifier first)) (set bound))
            (triples_of rest)
      | _ \<Rightarrow> False)"

text \<open>
  The fields of the context that a traversal leaves alone.
\<close>

definition same_frame :: "return_body_context \<Rightarrow> return_body_context \<Rightarrow> bool" where
  "same_frame c c' \<longleftrightarrow>
     body c' = body c \<and> symbol_table c' = symbol_table c \<and> bound_symbols c' = bound_symbols c \<and>
     storage c' = storage c \<and> where_clause c' = where_clause c \<and>
     output_symbols c' = output_symbols c \<and> named_expressions c' = named_expressions c"

text \<open>
  The named expressions that the expansion of \<^verbatim>\<open>*\<close> creates for a list of symbols,
  starting at a free uid, and what it means for one of them to stand for a symbol:
  it carries the name of the symbol, it is a fresh user-declared identifier of that
  name, and the symbol table maps both nodes to the symbol.
\<close>

fun expanded :: "nat \<Rightarrow> symbol list \<Rightarrow> named_expression list" where
  "expanded st [] = []"
| "expanded st (s # rest) =
     NamedExpression (Suc st) (name s) (Identifier (Ident st (name s) True))
     # expanded (Suc (Suc st)) rest"

definition expands_to :: "symbol_table \<Rightarrow> named_expression \<Rightarrow> symbol \<Rightarrow> bool" where
  "expands_to table ne s \<longleftrightarrow>
     ne_name ne = name s \<and> table (ne_uid ne) = Some s \<and>
     (\<exists>i. ne_expression ne = Identifier (Ident i (name s) True) \<and> table i = Some s)"

text \<open>The advance flags of the \<open>Accumulate\<close> operators among a list of layers.\<close>

fun accumulate_flag :: "logical_operator \<Rightarrow> bool option" where
  "accumulate_flag (Accumulate i u a) = Some a"
| "accumulate_flag other = None"

definition accumulate_flags :: "layer list \<Rightarrow> bool list" where
  "accumulate_flags ls =
     concat (map (\<lambda>l. case accumulate_flag (l None) of Some a \<Rightarrow> [a] | None \<Rightarrow> []) ls)"

text \<open>
  A result with its context changed, and a context with another body and WHERE
  clause in its pass-through fields.
\<close>

definition on_result :: "('a \<Rightarrow> 'b) \<Rightarrow> failure + 'a \<Rightarrow> failure + 'b" where
  "on_result f r = (case r of Inl e \<Rightarrow> Inl e | Inr x \<Rightarrow> Inr (f x))"

definition reframe :: "return_body \<Rightarrow> expression option \<Rightarrow> return_body_context \<Rightarrow> return_body_context" where
  "reframe b w c = c\<lparr>body := b, where_clause := w\<rparr>"

text \<open>
  The identifier nodes of an expression, in the order of the traversal, and the
  expressions without the quantifier ALL, whose visit removes a used symbol again.
\<close>

fun identifiers :: "expression \<Rightarrow> ast_identifier list"
  and identifiers_list :: "expression list \<Rightarrow> ast_identifier list"
  and identifiers_map :: "(string \<times> expression) list \<Rightarrow> ast_identifier list"
where
  "identifiers (PrimitiveLiteral v) = []"
| "identifiers (ListLiteral elements) = identifiers_list elements"
| "identifiers (MapLiteral elements) = identifiers_map elements"
| "identifiers (Identifier ident) = [ident]"
| "identifiers (ParameterLookup pos) = []"
| "identifiers (PropertyLookup e p) = identifiers e"
| "identifiers (UnaryOperator op e) = identifiers e"
| "identifiers (BinaryOperator op e1 e2) = identifiers e1 @ identifiers e2"
| "identifiers (ListSlicingOperator list lower_bound upper_bound) =
     identifiers list @
     (case lower_bound of None \<Rightarrow> [] | Some lb \<Rightarrow> identifiers lb) @
     (case upper_bound of None \<Rightarrow> [] | Some ub \<Rightarrow> identifiers ub)"
| "identifiers (IfOperator c t e) = identifiers c @ identifiers t @ identifiers e"
| "identifiers (Function fname arguments) = identifiers_list arguments"
| "identifiers (All ident l w) = ident # identifiers l @ identifiers w"
| "identifiers (Aggregation u e1 e2 op) =
     (case e1 of None \<Rightarrow> [] | Some x \<Rightarrow> identifiers x) @
     (case e2 of None \<Rightarrow> [] | Some x \<Rightarrow> identifiers x)"
| "identifiers_list [] = []"
| "identifiers_list (e # es) = identifiers e @ identifiers_list es"
| "identifiers_map [] = []"
| "identifiers_map (kv # kvs) = identifiers (snd kv) @ identifiers_map kvs"

fun quantifier_free :: "expression \<Rightarrow> bool"
  and quantifier_free_list :: "expression list \<Rightarrow> bool"
  and quantifier_free_map :: "(string \<times> expression) list \<Rightarrow> bool"
where
  "quantifier_free (PrimitiveLiteral v) = True"
| "quantifier_free (ListLiteral elements) = quantifier_free_list elements"
| "quantifier_free (MapLiteral elements) = quantifier_free_map elements"
| "quantifier_free (Identifier ident) = True"
| "quantifier_free (ParameterLookup pos) = True"
| "quantifier_free (PropertyLookup e p) = quantifier_free e"
| "quantifier_free (UnaryOperator op e) = quantifier_free e"
| "quantifier_free (BinaryOperator op e1 e2) = (quantifier_free e1 \<and> quantifier_free e2)"
| "quantifier_free (ListSlicingOperator list lower_bound upper_bound) =
     (quantifier_free list \<and>
      (case lower_bound of None \<Rightarrow> True | Some lb \<Rightarrow> quantifier_free lb) \<and>
      (case upper_bound of None \<Rightarrow> True | Some ub \<Rightarrow> quantifier_free ub))"
| "quantifier_free (IfOperator c t e) =
     (quantifier_free c \<and> quantifier_free t \<and> quantifier_free e)"
| "quantifier_free (Function fname arguments) = quantifier_free_list arguments"
| "quantifier_free (All ident l w) = False"
| "quantifier_free (Aggregation u e1 e2 op) =
     ((case e1 of None \<Rightarrow> True | Some x \<Rightarrow> quantifier_free x) \<and>
      (case e2 of None \<Rightarrow> True | Some x \<Rightarrow> quantifier_free x))"
| "quantifier_free_list [] = True"
| "quantifier_free_list (e # es) = (quantifier_free e \<and> quantifier_free_list es)"
| "quantifier_free_map [] = True"
| "quantifier_free_map (kv # kvs) = (quantifier_free (snd kv) \<and> quantifier_free_map kvs)"

text \<open>
  The symbols a visit of the identifiers \<open>ids\<close> collects: those of the symbol table
  that are not output symbols. \<open>collects ids c c'\<close>: from \<open>c\<close> to \<open>c'\<close> the frame stayed
  and the used symbols grew by exactly these.
\<close>

definition collected :: "return_body_context \<Rightarrow> ast_identifier list \<Rightarrow> symbol set" where
  "collected c ids =
     {s. \<exists>i \<in> set ids. symbol_table c (uid i) = Some s \<and> s \<notin> set (output_symbols c)}"

definition collects :: "ast_identifier list \<Rightarrow> return_body_context \<Rightarrow> return_body_context \<Rightarrow> bool" where
  "collects ids c c' \<longleftrightarrow>
     same_frame c c' \<and> set (used_symbols c') = set (used_symbols c) \<union> collected c ids"

text \<open>The identifiers of ORDER BY and WHERE, and both clauses without ALL.\<close>

definition clause_identifiers ::
  "(ordering \<times> expression) list \<Rightarrow> expression option \<Rightarrow> ast_identifier list" where
  "clause_identifiers obs w =
     concat (map (\<lambda>order_pair. identifiers (snd order_pair)) obs) @
     (case w of None \<Rightarrow> [] | Some e \<Rightarrow> identifiers e)"

definition clauses_quantifier_free ::
  "(ordering \<times> expression) list \<Rightarrow> expression option \<Rightarrow> bool" where
  "clauses_quantifier_free obs w \<longleftrightarrow>
     list_all (\<lambda>order_pair. quantifier_free (snd order_pair)) obs \<and>
     (case w of None \<Rightarrow> True | Some e \<Rightarrow> quantifier_free e)"

text \<open>
  Whether an expression holds an aggregation, which is the flag its visit leaves on
  the stack, and the flags of the elements of a list and of a map.
\<close>

fun contains_aggregation :: "expression \<Rightarrow> bool"
  and flags_list :: "expression list \<Rightarrow> bool list"
  and flags_map :: "(string \<times> expression) list \<Rightarrow> bool list"
where
  "contains_aggregation (PrimitiveLiteral v) = False"
| "contains_aggregation (ListLiteral elements) = list_ex (\<lambda>b. b) (flags_list elements)"
| "contains_aggregation (MapLiteral elements) = list_ex (\<lambda>b. b) (flags_map elements)"
| "contains_aggregation (Identifier ident) = False"
| "contains_aggregation (ParameterLookup pos) = False"
| "contains_aggregation (PropertyLookup e p) = contains_aggregation e"
| "contains_aggregation (UnaryOperator op e) = contains_aggregation e"
| "contains_aggregation (BinaryOperator op e1 e2) =
     (contains_aggregation e1 \<or> contains_aggregation e2)"
| "contains_aggregation (ListSlicingOperator list lower_bound upper_bound) =
     ((contains_aggregation list \<or>
       (case lower_bound of None \<Rightarrow> False | Some lb \<Rightarrow> contains_aggregation lb)) \<or>
      (case upper_bound of None \<Rightarrow> False | Some ub \<Rightarrow> contains_aggregation ub))"
| "contains_aggregation (IfOperator c t e) =
     (contains_aggregation c \<or> contains_aggregation t \<or> contains_aggregation e)"
| "contains_aggregation (Function fname arguments) = list_ex (\<lambda>b. b) (flags_list arguments)"
| "contains_aggregation (All ident l w) = (contains_aggregation l \<or> contains_aggregation w)"
| "contains_aggregation (Aggregation u e1 e2 op) = True"
| "flags_list [] = []"
| "flags_list (e # es) = contains_aggregation e # flags_list es"
| "flags_map [] = []"
| "flags_map (kv # kvs) = contains_aggregation (snd kv) # flags_map kvs"

text \<open>
  The expressions the classifier accepts: every identifier and every aggregation
  has a symbol, no operand of a CASE holds an aggregation, and an aggregation has the
  arguments of its kind, two for \<^verbatim>\<open>COLLECT_MAP\<close> and at most one otherwise.
\<close>

fun classifiable :: "symbol_table \<Rightarrow> expression \<Rightarrow> bool"
  and classifiable_list :: "symbol_table \<Rightarrow> expression list \<Rightarrow> bool"
  and classifiable_map :: "symbol_table \<Rightarrow> (string \<times> expression) list \<Rightarrow> bool"
where
  "classifiable table (PrimitiveLiteral v) = True"
| "classifiable table (ListLiteral elements) = classifiable_list table elements"
| "classifiable table (MapLiteral elements) = classifiable_map table elements"
| "classifiable table (Identifier ident) = (table (uid ident) \<noteq> None)"
| "classifiable table (ParameterLookup pos) = True"
| "classifiable table (PropertyLookup e p) = classifiable table e"
| "classifiable table (UnaryOperator op e) = classifiable table e"
| "classifiable table (BinaryOperator op e1 e2) = (classifiable table e1 \<and> classifiable table e2)"
| "classifiable table (ListSlicingOperator list lower_bound upper_bound) =
     (classifiable table list \<and>
      (case lower_bound of None \<Rightarrow> True | Some lb \<Rightarrow> classifiable table lb) \<and>
      (case upper_bound of None \<Rightarrow> True | Some ub \<Rightarrow> classifiable table ub))"
| "classifiable table (IfOperator c t e) =
     (classifiable table c \<and> classifiable table t \<and> classifiable table e \<and>
      \<not> contains_aggregation c \<and> \<not> contains_aggregation t \<and> \<not> contains_aggregation e)"
| "classifiable table (Function fname arguments) = classifiable_list table arguments"
| "classifiable table (All ident l w) =
     (table (uid ident) \<noteq> None \<and> classifiable table l \<and> classifiable table w)"
| "classifiable table (Aggregation u e1 e2 op) =
     (table u \<noteq> None \<and>
      (if op = Op_COLLECT_MAP then e1 \<noteq> None \<and> e2 \<noteq> None else e2 = None) \<and>
      (case e1 of None \<Rightarrow> True | Some x \<Rightarrow> classifiable table x) \<and>
      (case e2 of None \<Rightarrow> True | Some x \<Rightarrow> classifiable table x))"
| "classifiable_list table [] = True"
| "classifiable_list table (e # es) = (classifiable table e \<and> classifiable_list table es)"
| "classifiable_map table [] = True"
| "classifiable_map table (kv # kvs) = (classifiable table (snd kv) \<and> classifiable_map table kvs)"

text \<open>
  What a visit does to the context besides the frame: \<open>grown f c c'\<close> keeps the symbol
  table and appends aggregations, at least one exactly when \<open>f\<close> holds; \<open>visited\<close>
  also pushes the given flags on the stack.
\<close>

definition grown :: "bool \<Rightarrow> return_body_context \<Rightarrow> return_body_context \<Rightarrow> bool" where
  "grown f c c' \<longleftrightarrow>
     symbol_table c' = symbol_table c \<and>
     (\<exists>xs. aggregations c' = aggregations c @ xs \<and> (xs = [] \<longleftrightarrow> \<not> f))"

definition visited :: "bool list \<Rightarrow> return_body_context \<Rightarrow> return_body_context \<Rightarrow> bool" where
  "visited flags c c' \<longleftrightarrow>
     has_aggregation c' = has_aggregation c @ flags \<and> grown (list_ex (\<lambda>b. b) flags) c c'"

text \<open>
  The return bodies the classifier accepts: every named expression has a symbol and
  is accepted, and, unless one of them holds an aggregation, the ORDER BY
  expressions and the WHERE clause are accepted and hold no aggregation.
\<close>

definition body_classifiable :: "symbol_table \<Rightarrow> return_body \<Rightarrow> expression option \<Rightarrow> bool" where
  "body_classifiable table b w \<longleftrightarrow>
     list_all (\<lambda>ne. table (ne_uid ne) \<noteq> None \<and> classifiable table (ne_expression ne))
       (body_named_expressions b) \<and>
     (if list_ex (\<lambda>ne. contains_aggregation (ne_expression ne)) (body_named_expressions b)
      then True
      else list_all (\<lambda>order_pair. classifiable table (snd order_pair) \<and>
                        \<not> contains_aggregation (snd order_pair)) (body_order_by b) \<and>
           (case w of None \<Rightarrow> True
            | Some e \<Rightarrow> classifiable table e \<and> \<not> contains_aggregation e))"

section \<open>Example queries\<close>

definition sym_n :: symbol where
  "sym_n = \<lparr>name = ''n'', position = 0, user_declared = True, kind = NODE\<rparr>"

definition sym_k :: symbol where
  "sym_k = \<lparr>name = ''k'', position = 1, user_declared = True, kind = EXPRESSION\<rparr>"

definition sym_s :: symbol where
  "sym_s = \<lparr>name = ''s'', position = 2, user_declared = True, kind = EXPRESSION\<rparr>"

definition sym_agg :: symbol where
  "sym_agg = \<lparr>name = ''agg'', position = 3, user_declared = False, kind = EXPRESSION\<rparr>"

text \<open>
  \<^verbatim>\<open>WITH DISTINCT n.k AS k, sum(n.v) AS s ORDER BY k SKIP 1 LIMIT 10 WHERE s > 5\<close>
\<close>

definition with_body :: return_body where
  "with_body =
     \<lparr>body_distinct = True, body_all_identifiers = False,
      body_named_expressions =
        [NamedExpression 1 ''k'' (PropertyLookup (Identifier (Ident 0 ''n'' True)) ''k''),
         NamedExpression 4 ''s''
           (Aggregation 3 (Some (PropertyLookup (Identifier (Ident 2 ''n'' True)) ''v'')) None Op_SUM)],
      body_order_by = [(ASC, Identifier (Ident 5 ''k'' True))],
      body_skip = Some (PrimitiveLiteral (LInt 1)),
      body_limit = Some (PrimitiveLiteral (LInt 10))\<rparr>"

definition with_where :: expression where
  "with_where =
     BinaryOperator GreaterOperator (Identifier (Ident 6 ''s'' True)) (PrimitiveLiteral (LInt 5))"

definition with_table :: symbol_table where
  "with_table =
     [0 \<mapsto> sym_n, 1 \<mapsto> sym_k, 2 \<mapsto> sym_n, 3 \<mapsto> sym_agg, 4 \<mapsto> sym_s, 5 \<mapsto> sym_k, 6 \<mapsto> sym_s]"

text \<open>The context the classifier builds for it when \<open>n\<close> is bound.\<close>

definition with_context :: return_body_context where
  "with_context =
     \<lparr>body = with_body, symbol_table = with_table, bound_symbols = [sym_n], storage = 7,
      where_clause = Some with_where,
      used_symbols = [sym_n],
      output_symbols = [sym_k, sym_s],
      aggregations =
        [\<lparr>agg_value = Some (PropertyLookup (Identifier (Ident 2 ''n'' True)) ''v''),
          agg_key = None, agg_op = Op_SUM, output_sym = sym_agg\<rparr>],
      group_by = [PropertyLookup (Identifier (Ident 0 ''n'' True)) ''k''],
      has_aggregation = [],
      named_expressions = body_named_expressions with_body\<rparr>"

text \<open>Two named paths wait for their atoms; \<open>a\<close>, \<open>e\<close> and \<open>b\<close> are bound, \<open>c\<close> is not.\<close>

definition sym_a :: symbol where
  "sym_a = \<lparr>name = ''a'', position = 10, user_declared = True, kind = NODE\<rparr>"

definition sym_e :: symbol where
  "sym_e = \<lparr>name = ''e'', position = 11, user_declared = True, kind = EDGE\<rparr>"

definition sym_b :: symbol where
  "sym_b = \<lparr>name = ''b'', position = 12, user_declared = True, kind = NODE\<rparr>"

definition sym_c :: symbol where
  "sym_c = \<lparr>name = ''c'', position = 13, user_declared = True, kind = NODE\<rparr>"

definition sym_p :: symbol where
  "sym_p = \<lparr>name = ''p'', position = 14, user_declared = True, kind = PATH\<rparr>"

definition sym_q :: symbol where
  "sym_q = \<lparr>name = ''q'', position = 15, user_declared = True, kind = PATH\<rparr>"

definition pending_paths :: named_paths where
  "pending_paths = [(sym_q, [sym_a, sym_c]), (sym_p, [sym_a, sym_e, sym_b])]"

text \<open>Three filters: on \<open>a\<close>, on \<open>a\<close> and \<open>c\<close>, and on \<open>b\<close>.\<close>

definition stored_filters :: "filter_info list" where
  "stored_filters =
     [\<lparr>filter_expression = PropertyLookup (Identifier (Ident 20 ''a'' True)) ''x'',
       filter_used_symbols = [sym_a]\<rparr>,
      \<lparr>filter_expression =
         BinaryOperator EqualOperator (Identifier (Ident 21 ''a'' True)) (Identifier (Ident 22 ''c'' True)),
       filter_used_symbols = [sym_a, sym_c]\<rparr>,
      \<lparr>filter_expression = PropertyLookup (Identifier (Ident 23 ''b'' True)) ''y'',
       filter_used_symbols = [sym_b]\<rparr>]"

text \<open>\<^verbatim>\<open>CREATE (a)-[e:R]->(b)\<close>, anonymous and as the named path \<open>p\<close>.\<close>

definition node_a :: node_atom where "node_a = NodeAtom (Ident 40 ''a'' True) []"
definition edge_e :: edge_atom where "edge_e = EdgeAtom (Ident 41 ''e'' True) [''R'']"
definition node_b :: node_atom where "node_b = NodeAtom (Ident 42 ''b'' True) []"

definition create_table :: symbol_table where
  "create_table = [40 \<mapsto> sym_a, 41 \<mapsto> sym_e, 42 \<mapsto> sym_b, 43 \<mapsto> sym_p]"

definition create_pattern :: pattern where
  "create_pattern = \<lparr>pattern_identifier = Ident 43 ''anon'' False,
                     pattern_atoms = [Node node_a, Edge edge_e, Node node_b]\<rparr>"

definition named_pattern :: pattern where
  "named_pattern = \<lparr>pattern_identifier = Ident 43 ''p'' True,
                     pattern_atoms = [Node node_a, Edge edge_e, Node node_b]\<rparr>"

lemmas create_defs = create_table_def create_pattern_def named_pattern_def node_a_def edge_e_def
  node_b_def sym_a_def sym_b_def sym_e_def sym_p_def

text \<open>
  \<^verbatim>\<open>RETURN [count(n), n.k] AS l\<close>, and the same two arguments under a function call,
  a map literal and an addition.
\<close>

definition count_n :: expression where
  "count_n = Aggregation 3 (Some (Identifier (Ident 2 ''n'' True))) None Op_COUNT"

definition n_k :: expression where
  "n_k = PropertyLookup (Identifier (Ident 0 ''n'' True)) ''k''"

definition list_body :: "expression \<Rightarrow> return_body" where
  "list_body e =
     \<lparr>body_distinct = False, body_all_identifiers = False,
      body_named_expressions = [NamedExpression 4 ''l'' e],
      body_order_by = [], body_skip = None, body_limit = None\<rparr>"

definition list_table :: symbol_table where
  "list_table = [0 \<mapsto> sym_n, 2 \<mapsto> sym_n, 3 \<mapsto> sym_agg, 4 \<mapsto> sym_s]"

text \<open>
  \<^verbatim>\<open>WITH n.k AS k ORDER BY a.v WHERE k > 5\<close> with \<open>n\<close> and \<open>a\<close> bound, and the context
  the classifier builds for it.
\<close>

definition plain_body :: return_body where
  "plain_body =
     \<lparr>body_distinct = False, body_all_identifiers = False,
      body_named_expressions =
        [NamedExpression 1 ''k'' (PropertyLookup (Identifier (Ident 0 ''n'' True)) ''k'')],
      body_order_by = [(ASC, PropertyLookup (Identifier (Ident 5 ''a'' True)) ''v'')],
      body_skip = None, body_limit = None\<rparr>"

definition plain_where :: expression where
  "plain_where =
     BinaryOperator GreaterOperator (Identifier (Ident 6 ''k'' True)) (PrimitiveLiteral (LInt 5))"

definition plain_table :: symbol_table where
  "plain_table = [0 \<mapsto> sym_n, 1 \<mapsto> sym_k, 5 \<mapsto> sym_a, 6 \<mapsto> sym_k]"

definition plain_context :: return_body_context where
  "plain_context =
     \<lparr>body = plain_body, symbol_table = plain_table, bound_symbols = [sym_n, sym_a], storage = 7,
      where_clause = Some plain_where,
      used_symbols = [sym_n, sym_a],
      output_symbols = [sym_k],
      aggregations = [],
      group_by = [PropertyLookup (Identifier (Ident 0 ''n'' True)) ''k''],
      has_aggregation = [False, False],
      named_expressions = body_named_expressions plain_body\<rparr>"

text \<open>\<^verbatim>\<open>WITH *, n.k AS k\<close>, planned with \<open>n\<close>, the anonymous \<open>agg\<close> and \<open>a\<close> bound.\<close>

definition star_body :: return_body where
  "star_body =
     \<lparr>body_distinct = False, body_all_identifiers = True,
      body_named_expressions =
        [NamedExpression 1 ''k'' (PropertyLookup (Identifier (Ident 0 ''n'' True)) ''k'')],
      body_order_by = [], body_skip = None, body_limit = None\<rparr>"

lemmas symbol_defs = sym_n_def sym_k_def sym_s_def sym_agg_def sym_a_def

section \<open>The order of a return body\<close>

lemma plan_None: "plan None = []"
  by (simp add: plan_def)

lemma plan_Some: "plan (Some x) = x # plan (input x)"
  by (cases x) (simp_all add: plan_def)

text \<open>
  C1. Whatever the return body, \<^verbatim>\<open>GenReturnBody\<close> stacks its operators on the input
  bottom-up in the order Accumulate, Aggregate, Produce, Distinct, OrderBy, Skip,
  Limit, Filter. Produce is always there; each of the others is there exactly when
  its condition holds (accumulate is set, the aggregations are not empty, distinct
  is set, the order-by list is not empty, a SKIP, a LIMIT, a WHERE is present).
  Read from the top, the plan starts with Filter when there is a WHERE, and goes on
  with the plan of the input after the Accumulate.
\<close>

theorem GenReturnBody_order:
  "GenReturnBody input_op advance_command c accumulate =
     stack_layers (return_body_layers advance_command c accumulate) input_op
   \<and> map name_of (plan (GenReturnBody input_op advance_command c accumulate)) =
     return_body_names c accumulate @ map name_of (plan input_op)"
  by (simp add: GenReturnBody_def return_body_layers_def return_body_names_def stack_layers_def
      Let_def plan_Some split: option.splits)

theorem GenReturnBody_order_witness:
  "map name_of (plan (GenReturnBody (Some (ScanAll sym_n)) True with_context True)) =
     [Filter_name, Limit_name, Skip_name, OrderBy_name, Distinct_name, Produce_name,
      Aggregate_name, Accumulate_name, ScanAll_name]"
  using GenReturnBody_order [of "Some (ScanAll sym_n)" True with_context True, THEN conjunct2]
  by (simp add: return_body_names_def with_context_def with_body_def plan_Some plan_None)

section \<open>Named paths wait for their atoms\<close>

lemma all_bound_subset: "all_bound bound ss = (set ss \<subseteq> set bound)"
  by (induction ss) auto

lemma set_insert_symbol: "set (fst (insert_symbol s b)) = insert s (set b)"
  by (auto simp: insert_symbol_def)

lemma GenNamedPaths_bound_mono:
  "GenNamedPaths op b ps = (op', b', pending) \<Longrightarrow> set b \<subseteq> set b'"
proof (induction ps arbitrary: op b op' b' pending)
  case Nil then show ?case by simp
next
  case (Cons np ps)
  show ?case
  proof (cases "all_bound b (snd np)")
    case True
    with Cons.prems have "GenNamedPaths (Some (ConstructNamedPath op (fst np) (snd np)))
          (fst (insert_symbol (fst np) b)) ps = (op', b', pending)" by simp
    from Cons.IH [OF this] show ?thesis by (auto simp: set_insert_symbol)
  next
    case False
    with Cons.prems show ?thesis
      by (auto split: prod.splits dest: Cons.IH)
  qed
qed

lemma GenNamedPaths_pending_subset:
  "GenNamedPaths op b ps = (op', b', pending) \<Longrightarrow> set pending \<subseteq> set ps"
proof (induction ps arbitrary: op b op' b' pending)
  case Nil then show ?case by simp
next
  case (Cons np ps)
  show ?case
  proof (cases "all_bound b (snd np)")
    case True
    with Cons.prems have "GenNamedPaths (Some (ConstructNamedPath op (fst np) (snd np)))
          (fst (insert_symbol (fst np) b)) ps = (op', b', pending)" by simp
    from Cons.IH [OF this] show ?thesis by auto
  next
    case False
    obtain op1 b1 p1 where rec: "GenNamedPaths op b ps = (op1, b1, p1)"
      by (cases "GenNamedPaths op b ps") auto
    with False Cons.prems(1) have eq: "pending = np # p1" by auto
    from Cons.IH [OF rec] eq show ?thesis by auto
  qed
qed

lemma GenNamedPaths_unbound_stays:
  "GenNamedPaths op b ps = (op', b', pending) \<Longrightarrow> np \<in> set ps \<Longrightarrow>
     \<not> set (snd np) \<subseteq> set b' \<Longrightarrow> np \<in> set pending"
proof (induction ps arbitrary: op b op' b' pending)
  case Nil then show ?case by simp
next
  case (Cons x ps)
  show ?case
  proof (cases "all_bound b (snd x)")
    case True
    with Cons.prems(1) have rec: "GenNamedPaths (Some (ConstructNamedPath op (fst x) (snd x)))
          (fst (insert_symbol (fst x) b)) ps = (op', b', pending)" by simp
    from GenNamedPaths_bound_mono [OF rec] have "set b \<subseteq> set b'"
      by (auto simp: set_insert_symbol)
    with True have "set (snd x) \<subseteq> set b'" by (auto simp: all_bound_subset)
    with Cons.prems have "np \<in> set ps" by auto
    from Cons.IH [OF rec this Cons.prems(3)] show ?thesis .
  next
    case False
    obtain op1 b1 p1 where rec: "GenNamedPaths op b ps = (op1, b1, p1)"
      by (cases "GenNamedPaths op b ps") auto
    with False Cons.prems(1) have eq: "op' = op1" "b' = b1" "pending = x # p1" by auto
    show ?thesis
    proof (cases "np = x")
      case True then show ?thesis using eq by simp
    next
      case False
      with Cons.prems have "np \<in> set ps" by auto
      from Cons.IH [OF rec this] Cons.prems(3) eq show ?thesis by simp
    qed
  qed
qed

lemma GenNamedPaths_bound_constructed:
  "GenNamedPaths op b ps = (op', b', pending) \<Longrightarrow> np \<in> set ps \<Longrightarrow>
     set (snd np) \<subseteq> set b \<Longrightarrow> np \<notin> set pending"
proof (induction ps arbitrary: op b op' b' pending)
  case Nil then show ?case by simp
next
  case (Cons x ps)
  show ?case
  proof (cases "all_bound b (snd x)")
    case True
    with Cons.prems(1) have rec: "GenNamedPaths (Some (ConstructNamedPath op (fst x) (snd x)))
          (fst (insert_symbol (fst x) b)) ps = (op', b', pending)" by simp
    have sub: "set (snd np) \<subseteq> set (fst (insert_symbol (fst x) b))"
      using Cons.prems(3) by (auto simp: set_insert_symbol)
    show ?thesis
    proof (cases "np \<in> set ps")
      case True from Cons.IH [OF rec this sub] show ?thesis .
    next
      case False
      with GenNamedPaths_pending_subset [OF rec] show ?thesis by auto
    qed
  next
    case False
    obtain op1 b1 p1 where rec: "GenNamedPaths op b ps = (op1, b1, p1)"
      by (cases "GenNamedPaths op b ps") auto
    with False Cons.prems(1) have eq: "op' = op1" "b' = b1" "pending = x # p1" by auto
    from False Cons.prems(3) have "np \<noteq> x" by (auto simp: all_bound_subset)
    with Cons.prems have "np \<in> set ps" by auto
    from Cons.IH [OF rec this Cons.prems(3)] eq \<open>np \<noteq> x\<close> show ?thesis by simp
  qed
qed

lemma GenNamedPaths_structure:
  "GenNamedPaths op b ps = (op', b', pending) \<Longrightarrow> distinct (map fst ps) \<Longrightarrow>
     op' = stack_layers (map path_layer (constructed_paths ps pending)) op
     \<and> set b' = set b \<union> fst ` set (constructed_paths ps pending)
     \<and> pending = filter (\<lambda>np. np \<in> set pending) ps"
proof (induction ps arbitrary: op b op' b' pending)
  case Nil then show ?case by (simp add: constructed_paths_def stack_layers_def)
next
  case (Cons x ps)
  from Cons.prems(2) have d: "distinct (map fst ps)" and nx: "x \<notin> set ps"
    by (auto simp: image_iff)
  show ?case
  proof (cases "all_bound b (snd x)")
    case True
    with Cons.prems(1) have rec: "GenNamedPaths (Some (ConstructNamedPath op (fst x) (snd x)))
          (fst (insert_symbol (fst x) b)) ps = (op', b', pending)" by simp
    from GenNamedPaths_pending_subset [OF rec] nx have np: "x \<notin> set pending" by auto
    from Cons.IH [OF rec d] np show ?thesis
      by (auto simp: constructed_paths_def stack_layers_def path_layer_def set_insert_symbol)
  next
    case False
    obtain op1 b1 p1 where rec: "GenNamedPaths op b ps = (op1, b1, p1)"
      by (cases "GenNamedPaths op b ps") auto
    with False Cons.prems(1) have eq: "op' = op1" "b' = b1" "pending = x # p1" by auto
    have f1: "filter (\<lambda>np. np \<notin> set (x # p1)) ps = filter (\<lambda>np. np \<notin> set p1) ps"
      using nx by (intro filter_cong) auto
    have f2: "filter (\<lambda>np. np \<in> set (x # p1)) ps = filter (\<lambda>np. np \<in> set p1) ps"
      using nx by (intro filter_cong) auto
    from Cons.IH [OF rec d] show ?thesis
      unfolding eq constructed_paths_def using f1 f2 by simp
  qed
qed

text \<open>
  C10. \<^verbatim>\<open>GenNamedPaths\<close> constructs some of the pending paths and leaves the others
  pending, in their order and unchanged. The operator tail grows by one
  \<open>ConstructNamedPath\<close> per constructed path and by nothing else, and the bound
  symbols grow by the symbols of the constructed paths and by nothing else, so a
  path left pending touches neither. Every path whose atom symbols are all bound is
  constructed, and every path with an atom symbol that is not bound after the pass
  stays pending. Where no path symbol is an atom of a pending path, the paths that
  stay are exactly those with an atom symbol that was not bound before the pass.
  The keys of the pending map are unique.
\<close>

theorem GenNamedPaths_spec:
  assumes "GenNamedPaths last_op bound paths = (op', bound', pending)"
    and "distinct (map fst paths)"
  shows "op' = stack_layers (map path_layer (constructed_paths paths pending)) last_op
    \<and> set bound' = set bound \<union> fst ` set (constructed_paths paths pending)
    \<and> pending = filter (\<lambda>np. np \<in> set pending) paths
    \<and> (\<forall>np \<in> set paths. set (snd np) \<subseteq> set bound \<longrightarrow> np \<in> set (constructed_paths paths pending))
    \<and> (\<forall>np \<in> set paths. \<not> set (snd np) \<subseteq> set bound' \<longrightarrow> np \<in> set pending)
    \<and> (fst ` set paths \<inter> \<Union> (set ` snd ` set paths) = {} \<longrightarrow>
         pending = filter (\<lambda>np. \<not> set (snd np) \<subseteq> set bound) paths)"
proof -
  note s = GenNamedPaths_structure [OF assms]
  have c: "\<forall>np \<in> set paths. set (snd np) \<subseteq> set bound \<longrightarrow> np \<in> set (constructed_paths paths pending)"
    using GenNamedPaths_bound_constructed [OF assms(1)] by (auto simp: constructed_paths_def)
  have u: "\<forall>np \<in> set paths. \<not> set (snd np) \<subseteq> set bound' \<longrightarrow> np \<in> set pending"
    using GenNamedPaths_unbound_stays [OF assms(1)] by blast
  have h: "pending = filter (\<lambda>np. \<not> set (snd np) \<subseteq> set bound) paths"
    if H: "fst ` set paths \<inter> \<Union> (set ` snd ` set paths) = {}"
  proof -
    have "(np \<in> set pending) = (\<not> set (snd np) \<subseteq> set bound)" if np: "np \<in> set paths" for np
    proof
      assume "np \<in> set pending"
      with GenNamedPaths_bound_constructed [OF assms(1) np] show "\<not> set (snd np) \<subseteq> set bound"
        by blast
    next
      assume "\<not> set (snd np) \<subseteq> set bound"
      then obtain x where x: "x \<in> set (snd np)" "x \<notin> set bound" by blast
      from x(1) np have "x \<in> \<Union> (set ` snd ` set paths)" by blast
      with H have "x \<notin> fst ` set paths" by blast
      then have "x \<notin> fst ` set (constructed_paths paths pending)"
        by (auto simp: constructed_paths_def)
      with x(2) s have "x \<notin> set bound'" by simp
      with x(1) have "\<not> set (snd np) \<subseteq> set bound'" by blast
      with u np show "np \<in> set pending" by blast
    qed
    then have "filter (\<lambda>np. np \<in> set pending) paths = filter (\<lambda>np. \<not> set (snd np) \<subseteq> set bound) paths"
      by (intro filter_cong) auto
    with s show ?thesis by simp
  qed
  from s c u h show ?thesis by blast
qed

theorem GenNamedPaths_spec_witness:
  "GenNamedPaths (Some (ScanAll sym_a)) [sym_a, sym_e, sym_b] pending_paths =
     (Some (ConstructNamedPath (Some (ScanAll sym_a)) sym_p [sym_a, sym_e, sym_b]),
      [sym_a, sym_e, sym_b, sym_p], [(sym_q, [sym_a, sym_c])])
   \<and> distinct (map fst pending_paths)
   \<and> constructed_paths pending_paths [(sym_q, [sym_a, sym_c])] = [(sym_p, [sym_a, sym_e, sym_b])]
   \<and> [(sym_q, [sym_a, sym_c])] = filter (\<lambda>np. \<not> set (snd np) \<subseteq> set [sym_a, sym_e, sym_b]) pending_paths"
proof -
  have run: "GenNamedPaths (Some (ScanAll sym_a)) [sym_a, sym_e, sym_b] pending_paths =
     (Some (ConstructNamedPath (Some (ScanAll sym_a)) sym_p [sym_a, sym_e, sym_b]),
      [sym_a, sym_e, sym_b, sym_p], [(sym_q, [sym_a, sym_c])])"
    by (simp add: pending_paths_def insert_symbol_def sym_a_def sym_b_def sym_c_def sym_e_def sym_p_def sym_q_def)
  have d: "distinct (map fst pending_paths)"
    by (simp add: pending_paths_def sym_p_def sym_q_def)
  have H: "fst ` set pending_paths \<inter> \<Union> (set ` snd ` set pending_paths) = {}"
    by (simp add: pending_paths_def sym_a_def sym_b_def sym_c_def sym_e_def sym_p_def sym_q_def)
  have c: "constructed_paths pending_paths [(sym_q, [sym_a, sym_c])] = [(sym_p, [sym_a, sym_e, sym_b])]"
    by (simp add: constructed_paths_def pending_paths_def sym_p_def sym_q_def)
  from GenNamedPaths_spec [OF run d] H run d c show ?thesis by blast
qed

section \<open>Extracting the filters whose symbols are bound\<close>

lemma HasBoundFilterSymbols_subset: "HasBoundFilterSymbols bound = symbols_bound bound"
  by (rule ext) (simp add: HasBoundFilterSymbols_def symbols_bound_def all_bound_subset)

lemma ExtractFilters_loop_Some:
  "ExtractFilters_loop bound fs (Some a) st =
     (Some (foldl (BinaryOperator AndOperator) a
              (map filter_expression (filter (symbols_bound bound) fs))),
      filter (\<lambda>f. \<not> symbols_bound bound f) fs,
      st + length (filter (symbols_bound bound) fs))"
  by (induction fs arbitrary: a st)
     (simp_all add: HasBoundFilterSymbols_subset BoolJoin_def)

lemma ExtractFilters_loop_None:
  "ExtractFilters_loop bound fs None st =
     (and_join (map filter_expression (filter (symbols_bound bound) fs)),
      filter (\<lambda>f. \<not> symbols_bound bound f) fs,
      st + (length (filter (symbols_bound bound) fs) - 1))"
  by (induction fs arbitrary: st)
     (simp_all add: HasBoundFilterSymbols_subset BoolJoin_def ExtractFilters_loop_Some)

lemma and_join_None: "and_join es = None \<longleftrightarrow> es = []"
  by (cases es) simp_all

text \<open>
  C3. \<^verbatim>\<open>ExtractFilters\<close> returns the AND-join, in list order, of the expressions of
  exactly the stored filters whose used symbols all lie in the bound set, and leaves
  in the store exactly the other filters, in their order and unchanged. The joined
  predicate is null if and only if no filter qualified. One operator node is
  allocated per join.
\<close>

theorem ExtractFilters_spec:
  "ExtractFilters bound filters st =
     (and_join (map filter_expression (filter (symbols_bound bound) filters)),
      filter (\<lambda>f. \<not> symbols_bound bound f) filters,
      st + (length (filter (symbols_bound bound) filters) - 1))
   \<and> (fst (ExtractFilters bound filters st) = None \<longleftrightarrow>
        filter (symbols_bound bound) filters = [])"
  by (simp add: ExtractFilters_def ExtractFilters_loop_None and_join_None)

theorem ExtractFilters_spec_witness:
  "ExtractFilters [sym_a, sym_e, sym_b] stored_filters 30 =
     (Some (BinaryOperator AndOperator
              (PropertyLookup (Identifier (Ident 20 ''a'' True)) ''x'')
              (PropertyLookup (Identifier (Ident 23 ''b'' True)) ''y'')),
      [stored_filters ! 1], 31)"
  using ExtractFilters_spec [of "[sym_a, sym_e, sym_b]" stored_filters 30, THEN conjunct1]
  by (simp add: stored_filters_def symbols_bound_def sym_a_def sym_b_def sym_c_def sym_e_def)

section \<open>Planning a CREATE pattern\<close>

lemma at_Inr: "at table u = Inr s \<longleftrightarrow> table u = Some s"
  by (simp add: at_def split: option.splits)

lemma at_Inl: "at table u = Inl f \<longleftrightarrow> table u = None \<and> f = OutOfRange"
  by (auto simp: at_def split: option.splits)

lemma and_then_Inr_iff: "and_then r f = Inr y \<longleftrightarrow> (\<exists>x. r = Inr x \<and> f x = Inr y)"
  by (cases r) simp_all

lemma stack_layers_append: "stack_layers (xs @ ys) i = stack_layers ys (stack_layers xs i)"
  by (simp add: stack_layers_def)

lemma stack_layers_Cons: "stack_layers (l # ls) i = stack_layers ls (Some (l i))"
  by (simp add: stack_layers_def)

lemma stack_layers_Nil: "stack_layers [] i = i"
  by (simp add: stack_layers_def)

lemma create_collect_Inr:
  assumes "create_collect table last_op prev e n b = Inr (op, b')"
  shows "op = Some (CreateExpand n e last_op (symbol_of table (node_identifier prev))
                      (symbol_of table (node_identifier n) \<in> set b))"
    and "set b' = insert (symbol_of table (edge_identifier e))
                    (insert (symbol_of table (node_identifier n)) (set b))"
    and "symbol_of table (edge_identifier e) \<notin> set b"
    and "symbol_of table (edge_identifier e) \<noteq> symbol_of table (node_identifier n)"
  using assms
  by (auto simp: create_collect_def and_then_Inr_iff at_Inr symbol_of_def insert_symbol_def Let_def
      split: if_splits prod.splits)

lemma create_base_Inr:
  assumes "create_base table input_op n b = Inr (op, b')"
  shows "op = (if symbol_of table (node_identifier n) \<in> set b then input_op
               else Some (CreateNode n input_op))"
    and "set b' = insert (symbol_of table (node_identifier n)) (set b)"
  using assms
  by (auto simp: create_base_def and_then_Inr_iff at_Inr symbol_of_def insert_symbol_def
      split: if_splits prod.splits)

lemma ReducePattern_loop_create:
  "ReducePattern_loop (create_collect table) last_op cur rest b = Inr (op, b') \<Longrightarrow>
     op = stack_layers (expand_layers table (set b) cur (triples_of rest)) last_op
     \<and> set b' = set b \<union> (\<lambda>a. symbol_of table (atom_identifier a)) ` set rest"
proof (induction "create_collect table" last_op cur rest b arbitrary: op b'
       rule: ReducePattern_loop.induct)
  case (1 last_res current_node s)
  then show ?case by (simp add: stack_layers_Nil)
next
  case (2 last_res current_node n rest s)
  then show ?case by simp
next
  case (3 last_res current_node e s)
  then show ?case by simp
next
  case (4 last_res current_node e e' rest s)
  then show ?case by simp
next
  case (5 last_res current_node e n rest s)
  from "5.prems" obtain op1 b1 where
    c: "create_collect table last_res current_node e n s = Inr (op1, b1)" and
    r: "ReducePattern_loop (create_collect table) op1 n rest b1 = Inr (op, b')"
    by (auto simp: and_then_Inr_iff)
  note cc = create_collect_Inr [OF c]
  from "5.hyps" [OF c refl r] cc(1,2) show ?case
    by (auto simp: stack_layers_Cons insert_commute)
qed

lemma path_elements_Inr:
  "path_elements table atoms = Inr els \<Longrightarrow> els = map (\<lambda>a. symbol_of table (atom_identifier a)) atoms"
  by (induction atoms arbitrary: els) (auto simp: and_then_Inr_iff at_Inr symbol_of_def)

lemma atoms_of_Nil: "atoms_of [] = []"
  by (simp add: atoms_of_def)

lemma atoms_of_Cons: "atoms_of ((e, n) # ts) = Edge e # Node n # atoms_of ts"
  by (simp add: atoms_of_def)

lemma ReducePattern_loop_wellformed:
  "ReducePattern_loop collect last_op cur rest b = Inr r \<Longrightarrow> rest = atoms_of (triples_of rest)"
proof (induction collect last_op cur rest b arbitrary: r rule: ReducePattern_loop.induct)
  case (5 collect last_res current_node e n rest s)
  from "5.prems" obtain op1 b1 where
    c: "collect last_res current_node e n s = Inr (op1, b1)" and
    r: "ReducePattern_loop collect op1 n rest b1 = Inr r"
    by (auto simp: and_then_Inr_iff)
  from "5.IH" [OF c refl r] show ?case by (simp add: atoms_of_Cons)
qed (simp_all add: atoms_of_Nil)

text \<open>What a returned plan is.\<close>

lemma GenCreateForPattern_Inr:
  assumes "GenCreateForPattern p input_op table bound = Inr (op, bound')"
  shows "op = stack_layers (create_layers table bound p) input_op
    \<and> set bound' = set bound \<union> (\<lambda>a. symbol_of table (atom_identifier a)) ` set (pattern_atoms p)
    \<and> (\<exists>first. pattern_atoms p = Node first # atoms_of (triples_of (tl (pattern_atoms p))))"
proof -
  from assms obtain op1 where
    red: "ReducePattern p (create_base table input_op) (create_collect table) bound = Inr (op1, bound')"
    and fin: "(if ident_user_declared (pattern_identifier p) then
            and_then (path_elements table (pattern_atoms p)) (\<lambda>elements.
            and_then (at table (uid (pattern_identifier p))) (\<lambda>path_symbol.
              Inr (Some (ConstructNamedPath op1 path_symbol elements), bound')))
          else Inr (op1, bound')) = Inr (op, bound')"
    by (auto simp: GenCreateForPattern_def and_then_Inr_iff split: if_splits)
  from red obtain first rest op0 b0 where
    atoms: "pattern_atoms p = Node first # rest" and
    base: "create_base table input_op first bound = Inr (op0, b0)" and
    loop: "ReducePattern_loop (create_collect table) op0 first rest b0 = Inr (op1, bound')"
    by (auto simp: ReducePattern_def and_then_Inr_iff split: list.splits pattern_atom.splits)
  note b = create_base_Inr [OF base]
  note l = ReducePattern_loop_create [OF loop]
  have op1: "op1 = stack_layers
      ((if symbol_of table (node_identifier first) \<in> set bound then [] else [\<lambda>i. CreateNode first i]) @
       expand_layers table (insert (symbol_of table (node_identifier first)) (set bound)) first (triples_of rest))
      input_op"
    using b l by (simp add: stack_layers_append stack_layers_Cons stack_layers_Nil)
  have bnd: "set bound' = set bound \<union> (\<lambda>a. symbol_of table (atom_identifier a)) ` set (pattern_atoms p)"
    using b l atoms by auto
  have wf: "\<exists>first. pattern_atoms p = Node first # atoms_of (triples_of (tl (pattern_atoms p)))"
    using ReducePattern_loop_wellformed [OF loop] atoms by simp
  show ?thesis
  proof (cases "ident_user_declared (pattern_identifier p)")
    case True
    with fin obtain els ps where
      "path_elements table (pattern_atoms p) = Inr els"
      "at table (uid (pattern_identifier p)) = Inr ps"
      "op = Some (ConstructNamedPath op1 ps els)"
      by (auto simp: and_then_Inr_iff)
    with path_elements_Inr [of table "pattern_atoms p" els] True op1 bnd atoms wf show ?thesis
      by (simp add: create_layers_def stack_layers_append stack_layers_Cons stack_layers_Nil
          at_Inr symbol_of_def)
  next
    case False
    with fin op1 bnd atoms wf show ?thesis
      by (simp add: create_layers_def stack_layers_append stack_layers_Cons stack_layers_Nil)
  qed
qed

text \<open>When a plan is returned: what the closures and the loop need, and that it is enough.\<close>

lemma create_collect_lookups:
  assumes "create_collect table last_op prev e n b = Inr r"
  shows "table (uid (node_identifier prev)) \<noteq> None"
    and "table (uid (node_identifier n)) \<noteq> None"
    and "table (uid (edge_identifier e)) \<noteq> None"
proof -
  show "table (uid (node_identifier prev)) \<noteq> None"
    using assms by (cases "table (uid (node_identifier prev))") (simp_all add: create_collect_def at_def)
  then obtain sp where sp: "table (uid (node_identifier prev)) = Some sp" by auto
  show n: "table (uid (node_identifier n)) \<noteq> None"
    using assms sp
    by (cases "table (uid (node_identifier n))") (simp_all add: create_collect_def at_def)
  then obtain sn where sn: "table (uid (node_identifier n)) = Some sn" by auto
  show "table (uid (edge_identifier e)) \<noteq> None"
    using assms sp sn
    by (cases "table (uid (edge_identifier e))")
       (simp_all add: create_collect_def at_def Let_def split: prod.splits)
qed

lemma create_collect_fresh:
  assumes "table (uid (node_identifier prev)) \<noteq> None"
    and "table (uid (node_identifier n)) \<noteq> None"
    and "table (uid (edge_identifier e)) \<noteq> None"
    and "symbol_of table (edge_identifier e) \<notin> insert (symbol_of table (node_identifier n)) (set b)"
  shows "\<exists>r. create_collect table last_op prev e n b = Inr r"
  using assms
  by (auto simp: create_collect_def at_def symbol_of_def insert_symbol_def Let_def
      split: if_splits prod.splits)

lemma ReducePattern_loop_returns:
  assumes "table (uid (node_identifier cur)) \<noteq> None"
    and "list_all (\<lambda>a. table (uid (atom_identifier a)) \<noteq> None) (atoms_of ts)"
    and "edges_fresh table (set b) ts"
  shows "\<exists>r. ReducePattern_loop (create_collect table) last_op cur (atoms_of ts) b = Inr r"
  using assms
proof (induction ts arbitrary: last_op cur b)
  case Nil
  then show ?case by (simp add: atoms_of_Nil)
next
  case (Cons t ts)
  obtain e n where t: "t = (e, n)" by (cases t)
  from Cons.prems(2) have lk: "table (uid (node_identifier n)) \<noteq> None"
    "table (uid (edge_identifier e)) \<noteq> None"
    "list_all (\<lambda>a. table (uid (atom_identifier a)) \<noteq> None) (atoms_of ts)"
    by (simp_all add: t atoms_of_Cons)
  from Cons.prems(3) have fr:
    "symbol_of table (edge_identifier e) \<notin> insert (symbol_of table (node_identifier n)) (set b)"
    "edges_fresh table (insert (symbol_of table (edge_identifier e))
           (insert (symbol_of table (node_identifier n)) (set b))) ts"
    by (simp_all add: t)
  from create_collect_fresh [OF Cons.prems(1) lk(1,2) fr(1), of last_op]
  obtain op1 b1 where c: "create_collect table last_op cur e n b = Inr (op1, b1)" by auto
  from create_collect_Inr(2) [OF c] fr(2) have "edges_fresh table (set b1) ts" by simp
  from Cons.IH [OF lk(1) lk(3) this, of op1] c show ?case
    by (simp add: t atoms_of_Cons)
qed

lemma ReducePattern_loop_needs:
  "ReducePattern_loop (create_collect table) last_op cur rest b = Inr r \<Longrightarrow>
     list_all (\<lambda>a. table (uid (atom_identifier a)) \<noteq> None) rest
     \<and> edges_fresh table (set b) (triples_of rest)"
proof (induction "create_collect table" last_op cur rest b arbitrary: r
       rule: ReducePattern_loop.induct)
  case (5 last_res current_node e n rest s)
  from "5.prems" obtain op1 b1 where
    c: "create_collect table last_res current_node e n s = Inr (op1, b1)" and
    l: "ReducePattern_loop (create_collect table) op1 n rest b1 = Inr r"
    by (auto simp: and_then_Inr_iff)
  from "5.hyps" [OF c refl l] create_collect_Inr(2-4) [OF c] create_collect_lookups [OF c]
  show ?case by simp
qed simp_all

lemma path_elements_returns:
  "list_all (\<lambda>a. table (uid (atom_identifier a)) \<noteq> None) atoms \<Longrightarrow>
     \<exists>els. path_elements table atoms = Inr els"
  by (induction atoms) (auto simp: at_def)

lemma path_elements_needs:
  "path_elements table atoms = Inr els \<Longrightarrow>
     list_all (\<lambda>a. table (uid (atom_identifier a)) \<noteq> None) atoms"
  by (induction atoms arbitrary: els) (auto simp: and_then_Inr_iff at_Inr)

lemma GenCreateForPattern_returns:
  "(\<exists>r. GenCreateForPattern p input_op table bound = Inr r) \<longleftrightarrow> creatable table bound p"
proof
  assume "\<exists>r. GenCreateForPattern p input_op table bound = Inr r"
  then obtain op bound' where g: "GenCreateForPattern p input_op table bound = Inr (op, bound')"
    by auto
  then obtain op1 where
    red: "ReducePattern p (create_base table input_op) (create_collect table) bound = Inr (op1, bound')"
    and fin: "(if ident_user_declared (pattern_identifier p) then
            and_then (path_elements table (pattern_atoms p)) (\<lambda>elements.
            and_then (at table (uid (pattern_identifier p))) (\<lambda>path_symbol.
              Inr (Some (ConstructNamedPath op1 path_symbol elements), bound')))
          else Inr (op1, bound')) = Inr (op, bound')"
    by (auto simp: GenCreateForPattern_def and_then_Inr_iff split: if_splits)
  from red obtain first rest op0 b0 where
    atoms: "pattern_atoms p = Node first # rest" and
    base: "create_base table input_op first bound = Inr (op0, b0)" and
    loop: "ReducePattern_loop (create_collect table) op0 first rest b0 = Inr (op1, bound')"
    by (auto simp: ReducePattern_def and_then_Inr_iff split: list.splits pattern_atom.splits)
  from base have f: "table (uid (node_identifier first)) \<noteq> None"
    by (auto simp: create_base_def and_then_Inr_iff at_Inr)
  have pid: "table (uid (pattern_identifier p)) \<noteq> None" if "ident_user_declared (pattern_identifier p)"
    using fin that by (auto simp: and_then_Inr_iff at_Inr)
  from ReducePattern_loop_wellformed [OF loop] ReducePattern_loop_needs [OF loop]
    create_base_Inr(2) [OF base] atoms f pid
  show "creatable table bound p"
    by (simp add: creatable_def)
next
  assume c: "creatable table bound p"
  then obtain first rest where
    atoms: "pattern_atoms p = Node first # rest" and
    wf: "rest = atoms_of (triples_of rest)" and
    lk: "list_all (\<lambda>a. table (uid (atom_identifier a)) \<noteq> None) (pattern_atoms p)" and
    pid: "ident_user_declared (pattern_identifier p) \<Longrightarrow> table (uid (pattern_identifier p)) \<noteq> None" and
    fr: "edges_fresh table (insert (symbol_of table (node_identifier first)) (set bound)) (triples_of rest)"
    by (auto simp: creatable_def split: list.splits pattern_atom.splits if_splits)
  from lk atoms have f: "table (uid (node_identifier first)) \<noteq> None"
    and lr: "list_all (\<lambda>a. table (uid (atom_identifier a)) \<noteq> None) (atoms_of (triples_of rest))"
    using wf by auto
  have "\<exists>r. create_base table input_op first bound = Inr r"
    using f by (auto simp: create_base_def at_def insert_symbol_def)
  then obtain op0 b0 where base: "create_base table input_op first bound = Inr (op0, b0)"
    by auto
  from fr create_base_Inr(2) [OF base] have "edges_fresh table (set b0) (triples_of rest)" by simp
  from ReducePattern_loop_returns [OF f lr this, of op0] wf
  obtain op1 b1 where loop: "ReducePattern_loop (create_collect table) op0 first rest b0 = Inr (op1, b1)"
    by auto
  have red: "ReducePattern p (create_base table input_op) (create_collect table) bound = Inr (op1, b1)"
    using atoms base loop by (simp add: ReducePattern_def)
  show "\<exists>r. GenCreateForPattern p input_op table bound = Inr r"
  proof (cases "ident_user_declared (pattern_identifier p)")
    case True
    from path_elements_returns [OF lk] obtain els where
      els: "path_elements table (pattern_atoms p) = Inr els" by auto
    from pid [OF True] obtain ps where "table (uid (pattern_identifier p)) = Some ps" by auto
    with els red True show ?thesis by (simp add: GenCreateForPattern_def at_def)
  next
    case False
    with red show ?thesis by (simp add: GenCreateForPattern_def)
  qed
qed


text \<open>
  C8. \<^verbatim>\<open>GenCreateForPattern\<close> returns a plan exactly for the patterns that can be
  created: a first node followed by (edge, node) pairs, every atom with a symbol,
  a user-declared pattern identifier with a symbol, and no edge whose symbol is
  bound when its pair is reached, by the caller, by an earlier atom or by the node
  of the pair. The plan is then the input with these operators stacked on it: a
  \<open>CreateNode\<close> for the first node exactly when its symbol was not bound (otherwise
  the input passes through); for every pair a \<open>CreateExpand\<close> whose input symbol is
  the symbol of the previous node and that marks the node as existing exactly when
  its symbol was bound before the pair, by the caller or by an earlier atom of the
  pattern; and on top a \<open>ConstructNamedPath\<close> over the symbols of all atoms exactly
  when the pattern identifier is user declared. Afterwards the symbols of all atoms
  are bound.
\<close>

theorem GenCreateForPattern_spec:
  "((\<exists>r. GenCreateForPattern p input_op table bound = Inr r) \<longleftrightarrow> creatable table bound p)
   \<and> (creatable table bound p \<longrightarrow>
        (\<exists>bound1. GenCreateForPattern p input_op table bound =
                    Inr (stack_layers (create_layers table bound p) input_op, bound1)
           \<and> set bound1 =
               set bound \<union> (\<lambda>a. symbol_of table (atom_identifier a)) ` set (pattern_atoms p)))
   \<and> (GenCreateForPattern p input_op table bound = Inr (op, bound') \<longrightarrow>
        op = stack_layers (create_layers table bound p) input_op
        \<and> set bound' = set bound \<union> (\<lambda>a. symbol_of table (atom_identifier a)) ` set (pattern_atoms p)
        \<and> (\<exists>first. pattern_atoms p = Node first # atoms_of (triples_of (tl (pattern_atoms p)))))"
proof (intro conjI impI)
  show "(\<exists>r. GenCreateForPattern p input_op table bound = Inr r) \<longleftrightarrow> creatable table bound p"
    by (rule GenCreateForPattern_returns)
next
  assume "creatable table bound p"
  then obtain op1 b1 where r: "GenCreateForPattern p input_op table bound = Inr (op1, b1)"
    using GenCreateForPattern_returns [of p input_op table bound] by auto
  from GenCreateForPattern_Inr [OF r] r
  show "\<exists>bound1. GenCreateForPattern p input_op table bound =
                    Inr (stack_layers (create_layers table bound p) input_op, bound1)
           \<and> set bound1 =
               set bound \<union> (\<lambda>a. symbol_of table (atom_identifier a)) ` set (pattern_atoms p)"
    by auto
next
  assume r: "GenCreateForPattern p input_op table bound = Inr (op, bound')"
  from GenCreateForPattern_Inr [OF r]
  show "op = stack_layers (create_layers table bound p) input_op"
    and "set bound' = set bound \<union> (\<lambda>a. symbol_of table (atom_identifier a)) ` set (pattern_atoms p)"
    and "\<exists>first. pattern_atoms p = Node first # atoms_of (triples_of (tl (pattern_atoms p)))"
    by blast+
qed

lemma named_pattern_run:
  "GenCreateForPattern named_pattern None create_table [sym_b] =
     Inr (Some (ConstructNamedPath
                 (Some (CreateExpand node_b edge_e (Some (CreateNode node_a None)) sym_a True))
                 sym_p [sym_a, sym_e, sym_b]),
          [sym_b, sym_a, sym_e])"
  by (simp add: GenCreateForPattern_def ReducePattern_def create_base_def create_collect_def
      at_def insert_symbol_def create_defs)

lemma create_pattern_run:
  "GenCreateForPattern create_pattern None create_table [] =
     Inr (Some (CreateExpand node_b edge_e (Some (CreateNode node_a None)) sym_a False),
          [sym_a, sym_b, sym_e])"
  by (simp add: GenCreateForPattern_def ReducePattern_def create_base_def create_collect_def
      at_def insert_symbol_def create_defs)

lemma create_pattern_bound_run:
  "GenCreateForPattern create_pattern (Some (ScanAll sym_a)) create_table [sym_a] =
     Inr (Some (CreateExpand node_b edge_e (Some (ScanAll sym_a)) sym_a False),
          [sym_a, sym_b, sym_e])"
  by (simp add: GenCreateForPattern_def ReducePattern_def create_base_def create_collect_def
      at_def insert_symbol_def create_defs)

lemma create_pattern_creatable:
  "creatable create_table [] create_pattern" "creatable create_table [sym_a] create_pattern"
  "creatable create_table [sym_b] named_pattern" "\<not> creatable create_table [sym_e] create_pattern"
  by (simp_all add: creatable_def create_defs atoms_of_def symbol_of_def)

theorem GenCreateForPattern_spec_witness:
  "creatable create_table [] create_pattern
   \<and> GenCreateForPattern create_pattern None create_table [] =
       Inr (Some (CreateExpand node_b edge_e (Some (CreateNode node_a None)) sym_a False),
            [sym_a, sym_b, sym_e])
   \<and> stack_layers (create_layers create_table [] create_pattern) None =
       Some (CreateExpand node_b edge_e (Some (CreateNode node_a None)) sym_a False)
   \<and> creatable create_table [sym_a] create_pattern
   \<and> GenCreateForPattern create_pattern (Some (ScanAll sym_a)) create_table [sym_a] =
       Inr (Some (CreateExpand node_b edge_e (Some (ScanAll sym_a)) sym_a False),
            [sym_a, sym_b, sym_e])
   \<and> creatable create_table [sym_b] named_pattern
   \<and> GenCreateForPattern named_pattern None create_table [sym_b] =
       Inr (Some (ConstructNamedPath
                   (Some (CreateExpand node_b edge_e (Some (CreateNode node_a None)) sym_a True))
                   sym_p [sym_a, sym_e, sym_b]),
            [sym_b, sym_a, sym_e])
   \<and> stack_layers (create_layers create_table [sym_b] named_pattern) None =
       Some (ConstructNamedPath
                 (Some (CreateExpand node_b edge_e (Some (CreateNode node_a None)) sym_a True))
                 sym_p [sym_a, sym_e, sym_b])
   \<and> \<not> creatable create_table [sym_e] create_pattern
   \<and> (\<nexists>r. GenCreateForPattern create_pattern None create_table [sym_e] = Inr r)"
proof -
  from GenCreateForPattern_spec [of create_pattern None create_table "[]", THEN conjunct2,
      THEN conjunct1, rule_format, OF create_pattern_creatable(1)] create_pattern_run
  have 1: "stack_layers (create_layers create_table [] create_pattern) None =
       Some (CreateExpand node_b edge_e (Some (CreateNode node_a None)) sym_a False)"
    by auto
  from GenCreateForPattern_spec [of named_pattern None create_table "[sym_b]", THEN conjunct2,
      THEN conjunct1, rule_format, OF create_pattern_creatable(3)] named_pattern_run
  have 2: "stack_layers (create_layers create_table [sym_b] named_pattern) None =
       Some (ConstructNamedPath
                 (Some (CreateExpand node_b edge_e (Some (CreateNode node_a None)) sym_a True))
                 sym_p [sym_a, sym_e, sym_b])"
    by auto
  from GenCreateForPattern_spec [of create_pattern None create_table "[sym_e]", THEN conjunct1]
    create_pattern_creatable(4)
  have 3: "\<nexists>r. GenCreateForPattern create_pattern None create_table [sym_e] = Inr r"
    by simp
  from 1 2 3 create_pattern_run create_pattern_bound_run named_pattern_run create_pattern_creatable
  show ?thesis by simp
qed


lemma create_collect_fatal:
  assumes "table (uid (node_identifier prev)) \<noteq> None"
    and "table (uid (node_identifier n)) \<noteq> None"
    and "table (uid (edge_identifier e)) \<noteq> None"
    and "symbol_of table (edge_identifier e) \<in> insert (symbol_of table (node_identifier n)) (set b)"
  shows "create_collect table last_op prev e n b = Inl (FatalLog redeclared)"
  using assms
  by (auto simp: create_collect_def at_def symbol_of_def insert_symbol_def Let_def redeclared_def
      split: if_splits prod.splits)

lemma create_collect_total:
  assumes "table (uid (node_identifier prev)) \<noteq> None"
    and "table (uid (node_identifier n)) \<noteq> None"
    and "table (uid (edge_identifier e)) \<noteq> None"
  shows "create_collect table last_op prev e n b = Inl (FatalLog redeclared)
     \<or> (\<exists>r. create_collect table last_op prev e n b = Inr r)"
  using assms
  by (auto simp: create_collect_def at_def symbol_of_def insert_symbol_def Let_def redeclared_def
      split: if_splits prod.splits)

lemma ReducePattern_loop_fatal:
  assumes "table (uid (node_identifier cur)) \<noteq> None"
    and "\<forall>a \<in> set (atoms_of (pre @ (e, n) # post)). table (uid (atom_identifier a)) \<noteq> None"
    and "symbol_of table (edge_identifier e) \<in>
           set b \<union> (\<lambda>a. symbol_of table (atom_identifier a)) ` set (atoms_of pre @ [Node n])"
  shows "ReducePattern_loop (create_collect table) last_op cur (atoms_of (pre @ (e, n) # post)) b =
           Inl (FatalLog redeclared)"
  using assms
proof (induction pre arbitrary: last_op cur b)
  case Nil
  then have "create_collect table last_op cur e n b = Inl (FatalLog redeclared)"
    by (intro create_collect_fatal) (auto simp: atoms_of_Cons atoms_of_Nil)
  then show ?case by (simp add: atoms_of_Cons)
next
  case (Cons t pre)
  obtain e0 n0 where t: "t = (e0, n0)" by (cases t)
  from Cons.prems(2) have lk: "table (uid (node_identifier n0)) \<noteq> None"
    "table (uid (edge_identifier e0)) \<noteq> None"
    "\<forall>a \<in> set (atoms_of (pre @ (e, n) # post)). table (uid (atom_identifier a)) \<noteq> None"
    by (auto simp: t atoms_of_Cons)
  from create_collect_total [OF Cons.prems(1) lk(1,2), of last_op b]
  show ?case
  proof
    assume "create_collect table last_op cur e0 n0 b = Inl (FatalLog redeclared)"
    then show ?thesis by (simp add: t atoms_of_Cons)
  next
    assume "\<exists>r. create_collect table last_op cur e0 n0 b = Inr r"
    then obtain op1 b1 where c: "create_collect table last_op cur e0 n0 b = Inr (op1, b1)"
      by auto
    note cc = create_collect_Inr [OF c]
    have "symbol_of table (edge_identifier e) \<in>
           set b1 \<union> (\<lambda>a. symbol_of table (atom_identifier a)) ` set (atoms_of pre @ [Node n])"
      using Cons.prems(3) cc(2) by (auto simp: t atoms_of_Cons)
    from Cons.IH [OF lk(1) lk(3) this, of op1] c show ?thesis
      by (simp add: t atoms_of_Cons)
  qed
qed

text \<open>
  C5, as the code has it. Planning a CREATE pattern whose atoms all have a symbol
  stops at an edge whose symbol is already bound, by the caller or by an earlier atom
  of the pattern or by the node the edge leads to, with the fatal log message
  \<^verbatim>\<open>Symbols used for created edges cannot be redeclared.\<close>, which ends the process.
  No exception is raised, so the redeclaration does not reach the caller as a typed
  error.
\<close>

theorem edge_redeclaration_is_fatal:
  assumes "pattern_atoms p = Node first # atoms_of (pre @ (e, n) # post)"
    and "\<forall>a \<in> set (pattern_atoms p). table (uid (atom_identifier a)) \<noteq> None"
    and "symbol_of table (edge_identifier e) \<in>
           set bound \<union> (\<lambda>a. symbol_of table (atom_identifier a)) ` set (Node first # atoms_of pre @ [Node n])"
  shows "GenCreateForPattern p input_op table bound = Inl (FatalLog redeclared)
    \<and> aborts (FatalLog redeclared) \<and> \<not> is_exception (FatalLog redeclared)"
proof -
  from assms(1,2) have f: "table (uid (node_identifier first)) \<noteq> None"
    and r: "\<forall>a \<in> set (atoms_of (pre @ (e, n) # post)). table (uid (atom_identifier a)) \<noteq> None"
    by auto
  have "\<exists>r. create_base table input_op first bound = Inr r"
    using f by (auto simp: create_base_def at_def insert_symbol_def)
  then obtain op0 b0 where base: "create_base table input_op first bound = Inr (op0, b0)"
    by auto
  note b = create_base_Inr [OF base]
  have "symbol_of table (edge_identifier e) \<in>
           set b0 \<union> (\<lambda>a. symbol_of table (atom_identifier a)) ` set (atoms_of pre @ [Node n])"
    using assms(3) b(2) by auto
  from ReducePattern_loop_fatal [OF f r this, of op0] base assms(1) show ?thesis
    by (simp add: GenCreateForPattern_def ReducePattern_def)
qed

theorem edge_redeclaration_is_fatal_witness:
  "pattern_atoms create_pattern = Node node_a # atoms_of ([] @ (edge_e, node_b) # [])
   \<and> symbol_of create_table (edge_identifier edge_e) \<in> set [sym_e]
   \<and> GenCreateForPattern create_pattern (Some (ScanAll sym_e)) create_table [sym_e] = Inl (FatalLog redeclared)"
proof -
  have a: "pattern_atoms create_pattern = Node node_a # atoms_of ([] @ (edge_e, node_b) # [])"
    by (simp add: create_pattern_def atoms_of_def)
  have l: "\<forall>a \<in> set (pattern_atoms create_pattern). create_table (uid (atom_identifier a)) \<noteq> None"
    by (simp add: create_defs)
  have e: "symbol_of create_table (edge_identifier edge_e) \<in> set [sym_e]"
    by (simp add: symbol_of_def create_defs)
  then have e': "symbol_of create_table (edge_identifier edge_e) \<in>
           set [sym_e] \<union> (\<lambda>a. symbol_of create_table (atom_identifier a)) ` set (Node node_a # atoms_of [] @ [Node node_b])"
    by blast
  from edge_redeclaration_is_fatal [OF a l e', of "Some (ScanAll sym_e)"] a e show ?thesis by blast
qed

text \<open>
  The claim that a redeclared edge is reported as a typed error without an abort fails
  on \<^verbatim>\<open>CREATE (a)-[e:R]->(b)\<close> with \<open>e\<close> bound.
\<close>

theorem edge_redeclaration_counterexample:
  "GenCreateForPattern create_pattern None create_table [sym_e] =
     Inl (FatalLog ''Symbols used for created edges cannot be redeclared.'')
   \<and> aborts (FatalLog ''Symbols used for created edges cannot be redeclared.'')
   \<and> \<not> is_exception (FatalLog ''Symbols used for created edges cannot be redeclared.'')"
  by (simp add: GenCreateForPattern_def ReducePattern_def create_base_def create_collect_def
      at_def insert_symbol_def create_defs)

section \<open>The traversal of an expression\<close>

text \<open>
  An invariant of the traversal: a relation between the context before and the
  context after that is reflexive, transitive and holds across every step of the
  visitor holds across the traversal of any expression.
\<close>

lemma Accept_relates:
  assumes R_refl: "\<And>c. R c c"
    and R_trans: "\<And>a b c. R a b \<Longrightarrow> R b c \<Longrightarrow> R a c"
    and lit: "\<And>c c'. Visit_PrimitiveLiteral c = Inr c' \<Longrightarrow> R c c'"
    and par: "\<And>c c'. Visit_ParameterLookup c = Inr c' \<Longrightarrow> R c c'"
    and ide: "\<And>i c c'. Visit_Identifier i c = Inr c' \<Longrightarrow> R c c'"
    and lst: "\<And>es c c'. PostVisit_ListLiteral es c = Inr c' \<Longrightarrow> R c c'"
    and mp: "\<And>es c c'. PostVisit_MapLiteral es c = Inr c' \<Longrightarrow> R c c'"
    and fn: "\<And>es c c'. PostVisit_Function es c = Inr c' \<Longrightarrow> R c c'"
    and al: "\<And>i c c'. PostVisit_All i c = Inr c' \<Longrightarrow> R c c'"
    and bin: "\<And>e1 e2 c c'. PostVisit_BinaryOperator e1 e2 c = Inr c' \<Longrightarrow> R c c'"
    and agg: "\<And>u e1 e2 op c c'. PostVisit_Aggregation u e1 e2 op c = Inr c' \<Longrightarrow> R c c'"
    and pop: "\<And>c b c'. pop_flag c = Inr (b, c') \<Longrightarrow> R c c'"
    and emp: "\<And>c b. R c (emplace_flag b c)"
    and grp: "\<And>c e. R c (c\<lparr>group_by := group_by c @ [e]\<rparr>)"
  shows "Accept e c = Inr c' \<Longrightarrow> R c c'"
    and "Accept_list es c = Inr c' \<Longrightarrow> R c c'"
    and "Accept_map kvs c = Inr c' \<Longrightarrow> R c c'"
proof (induction e c and es c and kvs c arbitrary: c' and c' and c'
       rule: Accept_Accept_list_Accept_map.induct)
  case (1 v c)
  then show ?case by (simp add: lit)
next
  case (2 elements c)
  then show ?case by (auto simp: and_then_Inr_iff intro: R_trans lst)
next
  case (3 elements c)
  then show ?case by (auto simp: and_then_Inr_iff intro: R_trans mp)
next
  case (4 ident c)
  then show ?case by (simp add: ide)
next
  case (5 pos c)
  then show ?case by (simp add: par)
next
  case (6 e pr c)
  then show ?case by simp
next
  case (7 op e c)
  then show ?case by simp
next
  case (8 op expression1 expression2 c)
  from "8.prems" obtain c1 c2 where
    a: "Accept expression1 c = Inr c1" "Accept expression2 c1 = Inr c2"
       "PostVisit_BinaryOperator expression1 expression2 c2 = Inr c'"
    by (auto simp: and_then_Inr_iff)
  from "8.IH"(1) [OF a(1)] "8.IH"(2) [OF a(1) a(2)] bin [OF a(3)] show ?case
    by (blast intro: R_trans)
next
  case (9 list lower_bound upper_bound c)
  from "9.prems" obtain c1 b1 c2 h1 c5 h c8 where
    a: "Accept list c = Inr c1" "pop_flag c1 = Inr (b1, c2)"
       "(case lower_bound of None \<Rightarrow> Inr (b1, c2)
         | Some lb \<Rightarrow> and_then (Accept lb c2) (\<lambda>c3.
             and_then (pop_flag c3) (\<lambda>(b, c4). Inr (b1 \<or> b, c4)))) = Inr (h1, c5)"
       "(case upper_bound of None \<Rightarrow> Inr (h1, c5)
         | Some ub \<Rightarrow> and_then (Accept ub c5) (\<lambda>c6.
             and_then (pop_flag c6) (\<lambda>(b, c7). Inr (h1 \<or> b, c7)))) = Inr (h, c8)"
       "c' = emplace_flag h (if h \<and> \<not> b1 then c8\<lparr>group_by := group_by c8 @ [list]\<rparr> else c8)"
    by (auto simp: and_then_Inr_iff Let_def split: prod.splits)
  have r1: "R c c2" using "9.IH"(1) [OF a(1)] pop [OF a(2)] by (blast intro: R_trans)
  have r2: "R c2 c5"
  proof (cases lower_bound)
    case None
    with a(3) show ?thesis by (simp add: R_refl)
  next
    case (Some lb)
    with a(3) obtain c3 b where x: "Accept lb c2 = Inr c3" "pop_flag c3 = Inr (b, c5)"
      by (auto simp: and_then_Inr_iff split: prod.splits)
    from "9.IH"(2) [OF a(1) a(2) refl Some x(1)] pop [OF x(2)] show ?thesis
      by (blast intro: R_trans)
  qed
  have r3: "R c5 c8"
  proof (cases upper_bound)
    case None
    with a(4) show ?thesis by (simp add: R_refl)
  next
    case (Some ub)
    with a(4) obtain c6 b where x: "Accept ub c5 = Inr c6" "pop_flag c6 = Inr (b, c8)"
      by (auto simp: and_then_Inr_iff split: prod.splits)
    from "9.IH"(3) [OF a(1) a(2) refl a(3) refl Some x(1)] pop [OF x(2)] show ?thesis
      by (blast intro: R_trans)
  qed
  have r4: "R c8 c'"
  proof (cases "h \<and> \<not> b1")
    case True
    from R_trans [OF grp [of c8 list] emp [of "c8\<lparr>group_by := group_by c8 @ [list]\<rparr>" h]] True
    show ?thesis unfolding a(5) by simp
  next
    case False
    with emp [of c8 h] show ?thesis unfolding a(5) by auto
  qed
  from r1 r2 r3 r4 show ?case by (blast intro: R_trans)
next
  case (10 condition then_expression else_expression c)
  from "10.prems" obtain c1 b1 c2 c3 b2 c4 c5 b3 c6 where
    a: "Accept condition c = Inr c1" "pop_flag c1 = Inr (b1, c2)"
       "Accept then_expression c2 = Inr c3" "pop_flag c3 = Inr (b2, c4)"
       "Accept else_expression c4 = Inr c5" "pop_flag c5 = Inr (b3, c6)"
       "c' = emplace_flag (b1 \<or> b2 \<or> b3) c6"
    by (auto simp: and_then_Inr_iff Let_def split: prod.splits if_splits)
  from "10.IH"(1) [OF a(1)] pop [OF a(2)]
    "10.IH"(2) [OF a(1) a(2) refl a(3)] pop [OF a(4)]
    "10.IH"(3) [OF a(1) a(2) refl a(3) a(4) refl a(5)] pop [OF a(6)]
    emp [of c6 "b1 \<or> b2 \<or> b3"]
  show ?case unfolding a(7) by (blast intro: R_trans)
next
  case (11 fname arguments c)
  then show ?case by (auto simp: and_then_Inr_iff intro: R_trans fn)
next
  case (12 ident list_expression where_expression c)
  from "12.prems" obtain c1 c2 c3 where
    a: "Visit_Identifier ident c = Inr c1" "Accept list_expression c1 = Inr c2"
       "Accept where_expression c2 = Inr c3" "PostVisit_All ident c3 = Inr c'"
    by (auto simp: and_then_Inr_iff)
  from ide [OF a(1)] "12.IH"(1) [OF a(1) a(2)] "12.IH"(2) [OF a(1) a(2) a(3)] al [OF a(4)]
  show ?case by (blast intro: R_trans)
next
  case (13 aggr_uid expression1 expression2 op c)
  from "13.prems" obtain c1 c2 where
    a: "(case expression1 of None \<Rightarrow> Inr c | Some e1 \<Rightarrow> Accept e1 c) = Inr c1"
       "(case expression2 of None \<Rightarrow> Inr c1 | Some e2 \<Rightarrow> Accept e2 c1) = Inr c2"
       "PostVisit_Aggregation aggr_uid expression1 expression2 op c2 = Inr c'"
    by (auto simp: and_then_Inr_iff)
  have r1: "R c c1"
    using a(1) "13.IH"(1) by (cases expression1) (auto simp: R_refl)
  have r2: "R c1 c2"
    using a(2) "13.IH"(2) [OF a(1)] by (cases expression2) (auto simp: R_refl)
  from r1 r2 agg [OF a(3)] show ?case by (blast intro: R_trans)
next
  case (14 c)
  then show ?case by (simp add: R_refl)
next
  case (15 e es c)
  then show ?case by (auto simp: and_then_Inr_iff intro: R_trans)
next
  case (16 c)
  then show ?case by (simp add: R_refl)
next
  case (17 kv kvs c)
  then show ?case by (auto simp: and_then_Inr_iff intro: R_trans)
qed

lemma same_frame_refl: "same_frame c c"
  by (simp add: same_frame_def)

lemma same_frame_trans: "same_frame c c1 \<Longrightarrow> same_frame c1 c2 \<Longrightarrow> same_frame c c2"
  by (simp add: same_frame_def)

lemma same_frame_emplace_flag: "same_frame c (emplace_flag b c)"
  by (simp add: same_frame_def emplace_flag_def)

lemma same_frame_erase_last_flags: "same_frame c (erase_last_flags n c)"
  by (simp add: same_frame_def erase_last_flags_def Let_def)

lemma same_frame_group_by: "same_frame c (c\<lparr>group_by := g\<rparr>)"
  by (simp add: same_frame_def)

lemma same_frame_pop_flag: "pop_flag c = Inr (b, c') \<Longrightarrow> same_frame c c'"
  by (auto simp: pop_flag_def same_frame_def split: if_splits)

lemma same_frame_Visit_PrimitiveLiteral: "Visit_PrimitiveLiteral c = Inr c' \<Longrightarrow> same_frame c c'"
  by (auto simp: Visit_PrimitiveLiteral_def same_frame_emplace_flag)

lemma same_frame_Visit_ParameterLookup: "Visit_ParameterLookup c = Inr c' \<Longrightarrow> same_frame c c'"
  by (auto simp: Visit_ParameterLookup_def same_frame_emplace_flag)

lemma same_frame_Visit_Identifier: "Visit_Identifier i c = Inr c' \<Longrightarrow> same_frame c c'"
  by (auto simp: Visit_Identifier_def and_then_Inr_iff same_frame_def emplace_flag_def Let_def
      split: if_splits)

lemma same_frame_PostVisit_ListLiteral: "PostVisit_ListLiteral es c = Inr c' \<Longrightarrow> same_frame c c'"
  by (auto simp: PostVisit_ListLiteral_def same_frame_erase_last_flags split: if_splits)

lemma same_frame_PostVisit_MapLiteral: "PostVisit_MapLiteral es c = Inr c' \<Longrightarrow> same_frame c c'"
  by (auto simp: PostVisit_MapLiteral_def same_frame_erase_last_flags split: if_splits)

lemma same_frame_PostVisit_Function: "PostVisit_Function es c = Inr c' \<Longrightarrow> same_frame c c'"
  by (auto simp: PostVisit_Function_def same_frame_erase_last_flags split: if_splits)

lemma same_frame_PostVisit_All: "PostVisit_All i c = Inr c' \<Longrightarrow> same_frame c c'"
  by (auto simp: PostVisit_All_def and_then_Inr_iff same_frame_def erase_last_flags_def Let_def
      split: if_splits)

lemma same_frame_PostVisit_BinaryOperator:
  "PostVisit_BinaryOperator e1 e2 c = Inr c' \<Longrightarrow> same_frame c c'"
  by (auto simp: PostVisit_BinaryOperator_def and_then_Inr_iff pop_flag_def same_frame_def
      emplace_flag_def Let_def split: if_splits)

lemma same_frame_PostVisit_Aggregation:
  "PostVisit_Aggregation u e1 e2 op c = Inr c' \<Longrightarrow> same_frame c c'"
  by (auto simp: PostVisit_Aggregation_def and_then_Inr_iff pop_flag_def same_frame_def
      emplace_flag_def Let_def split: if_splits)

lemma same_frame_PostVisit_NamedExpression:
  "PostVisit_NamedExpression ne c = Inr c' \<Longrightarrow> same_frame c c'"
  by (auto simp: PostVisit_NamedExpression_def and_then_Inr_iff pop_flag_def same_frame_def
      split: if_splits)

lemmas same_frame_visits =
  same_frame_Visit_PrimitiveLiteral same_frame_Visit_ParameterLookup same_frame_Visit_Identifier
  same_frame_PostVisit_ListLiteral same_frame_PostVisit_MapLiteral same_frame_PostVisit_Function
  same_frame_PostVisit_All same_frame_PostVisit_BinaryOperator same_frame_PostVisit_Aggregation

lemma Accept_same_frame:
  "Accept e c = Inr c' \<Longrightarrow> same_frame c c'"
  by (rule Accept_relates(1) [where R = same_frame])
     (auto intro: same_frame_refl same_frame_emplace_flag same_frame_group_by same_frame_visits
        same_frame_pop_flag elim: same_frame_trans)

lemma Accept_NamedExpression_same_frame:
  "Accept_NamedExpression ne c = Inr c' \<Longrightarrow> same_frame c c'"
  by (auto simp: Accept_NamedExpression_def and_then_Inr_iff
      dest!: Accept_same_frame same_frame_PostVisit_NamedExpression elim: same_frame_trans)

lemma visit_order_by_same_frame:
  "visit_order_by obs c = Inr c' \<Longrightarrow> same_frame c c'"
  by (induction obs arbitrary: c)
     (auto simp: and_then_Inr_iff same_frame_refl dest!: Accept_same_frame elim: same_frame_trans)

lemma visit_where_same_frame:
  "visit_where w c = Inr c' \<Longrightarrow> same_frame c c'"
  by (auto simp: visit_where_def same_frame_refl split: option.splits dest: Accept_same_frame)

section \<open>The context of a return body\<close>

text \<open>What a named expression of the body adds to the context.\<close>

lemma collect_named_expression_Inr:
  assumes "collect_named_expression ne c = Inr c'"
  shows "output_symbols c' = output_symbols c @ [the (symbol_table c (ne_uid ne))]"
    and "named_expressions c' = named_expressions c @ [ne]"
    and "symbol_table c' = symbol_table c" and "storage c' = storage c"
    and "body c' = body c" and "where_clause c' = where_clause c"
    and "bound_symbols c' = bound_symbols c"
  using assms
  by (auto simp: collect_named_expression_def and_then_Inr_iff at_Inr same_frame_def
      dest!: Accept_NamedExpression_same_frame)

lemma collect_named_expressions_Inr:
  "collect_named_expressions nes c = Inr c' \<Longrightarrow>
     output_symbols c' = output_symbols c @ map (\<lambda>ne. the (symbol_table c (ne_uid ne))) nes
     \<and> named_expressions c' = named_expressions c @ nes
     \<and> symbol_table c' = symbol_table c \<and> storage c' = storage c
     \<and> body c' = body c \<and> where_clause c' = where_clause c
     \<and> bound_symbols c' = bound_symbols c"
proof (induction nes arbitrary: c)
  case Nil
  then show ?case by simp
next
  case (Cons ne nes)
  from Cons.prems obtain c1 where
    a: "collect_named_expression ne c = Inr c1" "collect_named_expressions nes c1 = Inr c'"
    by (auto simp: and_then_Inr_iff)
  from Cons.IH [OF a(2)] collect_named_expression_Inr [OF a(1)] show ?case by simp
qed

text \<open>What the expansion of \<^verbatim>\<open>*\<close> adds to the context, symbol by symbol.\<close>

lemma expand_symbol_user:
  "user_declared s \<Longrightarrow> expand_symbol s c =
     c\<lparr>symbol_table := (symbol_table c)(storage c \<mapsto> s, Suc (storage c) \<mapsto> s),
       storage := Suc (Suc (storage c)),
       named_expressions := named_expressions c @
         [NamedExpression (Suc (storage c)) (name s) (Identifier (Ident (storage c) (name s) True))],
       output_symbols := output_symbols c @ [s],
       used_symbols := fst (insert_symbol s (used_symbols c)),
       group_by := group_by c @ [Identifier (Ident (storage c) (name s) True)]\<rparr>"
  by (simp add: expand_symbol_def Let_def)

lemma expand_symbol_other: "\<not> user_declared s \<Longrightarrow> expand_symbol s c = c"
  by (simp add: expand_symbol_def)

lemma fold_expand_symbol:
  "output_symbols (fold expand_symbol bs c) = output_symbols c @ filter user_declared bs
   \<and> named_expressions (fold expand_symbol bs c) =
       named_expressions c @ expanded (storage c) (filter user_declared bs)
   \<and> group_by (fold expand_symbol bs c) =
       group_by c @ map ne_expression (expanded (storage c) (filter user_declared bs))
   \<and> storage (fold expand_symbol bs c) = storage c + 2 * length (filter user_declared bs)
   \<and> set (used_symbols (fold expand_symbol bs c)) =
       set (used_symbols c) \<union> set (filter user_declared bs)
   \<and> body (fold expand_symbol bs c) = body c
   \<and> bound_symbols (fold expand_symbol bs c) = bound_symbols c
   \<and> where_clause (fold expand_symbol bs c) = where_clause c
   \<and> aggregations (fold expand_symbol bs c) = aggregations c
   \<and> has_aggregation (fold expand_symbol bs c) = has_aggregation c"
proof (induction bs arbitrary: c)
  case Nil
  then show ?case by simp
next
  case (Cons s bs)
  show ?case
  proof (cases "user_declared s")
    case True
    show ?thesis
      using Cons.IH [of "expand_symbol s c"] True
      by (simp add: expand_symbol_user set_insert_symbol)
  next
    case False
    then show ?thesis using Cons.IH [of c] by (simp add: expand_symbol_other)
  qed
qed

lemma fold_expand_symbol_table_old:
  "u < storage c \<Longrightarrow> symbol_table (fold expand_symbol bs c) u = symbol_table c u"
proof (induction bs arbitrary: c)
  case Nil
  then show ?case by simp
next
  case (Cons s bs)
  show ?case
  proof (cases "user_declared s")
    case True
    have "u < storage (expand_symbol s c)" using Cons.prems True by (simp add: expand_symbol_user)
    from Cons.IH [OF this] Cons.prems True show ?thesis by (simp add: expand_symbol_user)
  next
    case False
    then show ?thesis using Cons.IH [of c] Cons.prems by (simp add: expand_symbol_other)
  qed
qed

lemma fold_expand_symbol_table_new:
  "list_all2 (expands_to (symbol_table (fold expand_symbol bs c)))
     (expanded (storage c) (filter user_declared bs)) (filter user_declared bs)"
proof (induction bs arbitrary: c)
  case Nil
  then show ?case by simp
next
  case (Cons s bs)
  show ?case
  proof (cases "user_declared s")
    case True
    let ?c1 = "expand_symbol s c"
    have st: "storage ?c1 = Suc (Suc (storage c))" using True by (simp add: expand_symbol_user)
    have "symbol_table (fold expand_symbol bs ?c1) (storage c) = symbol_table ?c1 (storage c)"
      "symbol_table (fold expand_symbol bs ?c1) (Suc (storage c)) = symbol_table ?c1 (Suc (storage c))"
      by (rule fold_expand_symbol_table_old, simp add: st)+
    then have "expands_to (symbol_table (fold expand_symbol bs ?c1))
        (NamedExpression (Suc (storage c)) (name s) (Identifier (Ident (storage c) (name s) True))) s"
      using True by (simp add: expands_to_def expand_symbol_user)
    with Cons.IH [of ?c1] True st show ?thesis by simp
  next
    case False
    then show ?thesis using Cons.IH [of c] by (simp add: expand_symbol_other)
  qed
qed

lemma ExpandUserSymbols_initial:
  "ExpandUserSymbols (initial_context b table bound st w) =
     Inr ((fold expand_symbol bound (initial_context b table bound st w))
       \<lparr>output_symbols := sort_key name (filter user_declared bound),
        named_expressions := sort_key ne_name (expanded st (filter user_declared bound))\<rparr>)"
  using fold_expand_symbol [of bound "initial_context b table bound st w"]
  by (simp add: ExpandUserSymbols_def Let_def initial_context_def)

text \<open>
  C7. On the fresh context of a return body, \<^verbatim>\<open>ExpandUserSymbols\<close> succeeds. It
  creates one named expression per user-declared symbol of the bound set and none
  for any other symbol; each is a fresh identifier with the name of its symbol, and
  the symbol table maps the identifier and the named expression to that symbol. The
  output symbols are the user-declared bound symbols sorted ascending by name, the
  named expressions are the created ones sorted ascending by name, and the set of
  output symbols is the set of user-declared symbols of the bound set. The symbols
  are also used symbols, and the identifiers are grouped by, in the order of
  creation.
\<close>

theorem ExpandUserSymbols_spec:
  "\<exists>c. ExpandUserSymbols (initial_context b table bound st w) = Inr c
     \<and> output_symbols c = sort_key name (filter user_declared bound)
     \<and> named_expressions c = sort_key ne_name (expanded st (filter user_declared bound))
     \<and> sorted (map name (output_symbols c))
     \<and> sorted (map ne_name (named_expressions c))
     \<and> set (output_symbols c) = {s \<in> set bound. user_declared s}
     \<and> length (named_expressions c) = length (filter user_declared bound)
     \<and> list_all2 (expands_to (symbol_table c))
          (expanded st (filter user_declared bound)) (filter user_declared bound)
     \<and> group_by c = map ne_expression (expanded st (filter user_declared bound))
     \<and> set (used_symbols c) = {s \<in> set bound. user_declared s}"
proof -
  let ?ini = "initial_context b table bound st w"
  let ?us = "filter user_declared bound"
  let ?res = "(fold expand_symbol bound ?ini)
       \<lparr>output_symbols := sort_key name ?us, named_expressions := sort_key ne_name (expanded st ?us)\<rparr>"
  have st: "storage ?ini = st" by (simp add: initial_context_def)
  have len: "length (expanded k xs) = length xs" for k xs
    by (induction xs arbitrary: k) simp_all
  have t: "list_all2 (expands_to (symbol_table ?res)) (expanded st ?us) ?us"
    using fold_expand_symbol_table_new [of bound ?ini] by (simp add: st)
  have e: "group_by ?ini = []" "used_symbols ?ini = []" by (simp_all add: initial_context_def)
  from fold_expand_symbol [of bound ?ini]
  have "group_by (fold expand_symbol bound ?ini) =
          group_by ?ini @ map ne_expression (expanded (storage ?ini) ?us)"
    and "set (used_symbols (fold expand_symbol bound ?ini)) = set (used_symbols ?ini) \<union> set ?us"
    by blast+
  then have g: "group_by ?res = map ne_expression (expanded st ?us)"
    and u: "set (used_symbols ?res) = {s \<in> set bound. user_declared s}"
    unfolding e st by auto
  have "ExpandUserSymbols ?ini = Inr ?res" by (rule ExpandUserSymbols_initial)
  moreover have "output_symbols ?res = sort_key name ?us" by simp
  moreover have "named_expressions ?res = sort_key ne_name (expanded st ?us)" by simp
  moreover have "sorted (map name (output_symbols ?res))" by simp
  moreover have "sorted (map ne_name (named_expressions ?res))" by simp
  moreover have "set (output_symbols ?res) = {s \<in> set bound. user_declared s}" by auto
  moreover have "length (named_expressions ?res) = length ?us" by (simp add: len)
  ultimately show ?thesis using t g u by blast
qed

theorem ExpandUserSymbols_spec_witness:
  "\<exists>c. ExpandUserSymbols (initial_context with_body with_table [sym_n, sym_agg, sym_a] 7 None) = Inr c
     \<and> output_symbols c = [sym_a, sym_n]
     \<and> named_expressions c =
         [NamedExpression 10 ''a'' (Identifier (Ident 9 ''a'' True)),
          NamedExpression 8 ''n'' (Identifier (Ident 7 ''n'' True))]"
proof -
  have o: "sort_key name (filter user_declared [sym_n, sym_agg, sym_a]) = [sym_a, sym_n]"
    by (simp add: sym_n_def sym_agg_def sym_a_def)
  have n: "sort_key ne_name (expanded 7 (filter user_declared [sym_n, sym_agg, sym_a])) =
         [NamedExpression 10 ''a'' (Identifier (Ident 9 ''a'' True)),
          NamedExpression 8 ''n'' (Identifier (Ident 7 ''n'' True))]"
    by (simp add: sym_n_def sym_agg_def sym_a_def eval_nat_numeral)
  from ExpandUserSymbols_spec [of with_body with_table "[sym_n, sym_agg, sym_a]" 7 None]
  show ?thesis unfolding o n by blast
qed

text \<open>
  The constructor runs the first half, and then either stops, when there is an
  aggregation, or visits ORDER BY and WHERE, which leave the frame alone.
\<close>

lemma collect_output_Inr:
  assumes "collect_output b (initial_context b table bound st w) = Inr c"
  shows "output_symbols c =
           (if body_all_identifiers b then sort_key name (filter user_declared bound) else []) @
           map (\<lambda>ne. the (symbol_table c (ne_uid ne))) (body_named_expressions b)"
    and "named_expressions c =
           (if body_all_identifiers b
            then sort_key ne_name (expanded st (filter user_declared bound)) else []) @
           body_named_expressions b"
    and "body c = b" and "where_clause c = w" and "bound_symbols c = bound"
proof -
  from assms obtain c1 where
    a: "(if body_all_identifiers b then ExpandUserSymbols (initial_context b table bound st w)
         else Inr (initial_context b table bound st w)) = Inr c1"
       "collect_named_expressions (body_named_expressions b) c1 = Inr c"
    by (auto simp: collect_output_def and_then_Inr_iff)
  have c1: "output_symbols c1 =
      (if body_all_identifiers b then sort_key name (filter user_declared bound) else [])
    \<and> named_expressions c1 =
      (if body_all_identifiers b then sort_key ne_name (expanded st (filter user_declared bound)) else [])
    \<and> body c1 = b \<and> where_clause c1 = w \<and> bound_symbols c1 = bound"
  proof (cases "body_all_identifiers b")
    case True
    with a(1) have "c1 = (fold expand_symbol bound (initial_context b table bound st w))
       \<lparr>output_symbols := sort_key name (filter user_declared bound),
        named_expressions := sort_key ne_name (expanded st (filter user_declared bound))\<rparr>"
      by (simp add: ExpandUserSymbols_initial)
    with True fold_expand_symbol [of bound "initial_context b table bound st w"]
    show ?thesis by (simp add: initial_context_def)
  next
    case False
    with a(1) show ?thesis by (auto simp: initial_context_def)
  qed
  note n = collect_named_expressions_Inr [OF a(2)]
  from n c1 show "output_symbols c =
           (if body_all_identifiers b then sort_key name (filter user_declared bound) else []) @
           map (\<lambda>ne. the (symbol_table c (ne_uid ne))) (body_named_expressions b)"
    by simp
  from n c1 show "named_expressions c =
           (if body_all_identifiers b
            then sort_key ne_name (expanded st (filter user_declared bound)) else []) @
           body_named_expressions b"
    by simp
  from n c1 show "body c = b" "where_clause c = w" "bound_symbols c = bound" by simp_all
qed

lemma ReturnBodyContext_cases:
  assumes "ReturnBodyContext b table bound st w = Inr c"
  obtains c2 where "collect_output b (initial_context b table bound st w) = Inr c2"
    and "same_frame c2 c"
    and "aggregations c2 \<noteq> [] \<Longrightarrow> c = c2"
    and "aggregations c2 = [] \<Longrightarrow>
           \<exists>c3. visit_order_by (body_order_by b) c2 = Inr c3 \<and> visit_where w c3 = Inr c
                \<and> aggregations c = []"
proof -
  from assms obtain c2 where
    a: "collect_output b (initial_context b table bound st w) = Inr c2"
    and r: "(if aggregations c2 = [] then
         and_then (visit_order_by (body_order_by b) c2) (\<lambda>c3.
         and_then (visit_where w c3) (\<lambda>c4.
           if aggregations c4 = [] then Inr c4
           else Inl (CheckFailed ''Unexpected aggregations in ORDER BY or WHERE'')))
       else Inr c2) = Inr c"
    by (auto simp: ReturnBodyContext_def and_then_Inr_iff)
  show thesis
  proof (cases "aggregations c2 = []")
    case True
    with r obtain c3 where
      v: "visit_order_by (body_order_by b) c2 = Inr c3" "visit_where w c3 = Inr c"
         "aggregations c = []"
      by (auto simp: and_then_Inr_iff split: if_splits)
    from visit_order_by_same_frame [OF v(1)] visit_where_same_frame [OF v(2)]
    have "same_frame c2 c" by (rule same_frame_trans)
    with a v True show ?thesis by (intro that [of c2]) auto
  next
    case False
    with r have "c = c2" by simp
    with a False show ?thesis by (intro that [of c2]) (auto simp: same_frame_refl)
  qed
qed

lemma ReturnBodyContext_output:
  assumes "ReturnBodyContext b table bound st w = Inr c"
  shows "output_symbols c =
           (if body_all_identifiers b then sort_key name (filter user_declared bound) else []) @
           map (\<lambda>ne. the (symbol_table c (ne_uid ne))) (body_named_expressions b)"
    and "named_expressions c =
           (if body_all_identifiers b
            then sort_key ne_name (expanded st (filter user_declared bound)) else []) @
           body_named_expressions b"
    and "body c = b" and "where_clause c = w" and "bound_symbols c = bound"
proof -
  from assms obtain c2 where
    a: "collect_output b (initial_context b table bound st w) = Inr c2" and f: "same_frame c2 c"
    by (rule ReturnBodyContext_cases)
  note o = collect_output_Inr [OF a]
  from f have e: "output_symbols c = output_symbols c2" "symbol_table c = symbol_table c2"
    "named_expressions c = named_expressions c2" "body c = body c2"
    "where_clause c = where_clause c2" "bound_symbols c = bound_symbols c2"
    by (simp_all add: same_frame_def)
  show "output_symbols c =
           (if body_all_identifiers b then sort_key name (filter user_declared bound) else []) @
           map (\<lambda>ne. the (symbol_table c (ne_uid ne))) (body_named_expressions b)"
    unfolding e using o(1) .
  show "named_expressions c =
           (if body_all_identifiers b
            then sort_key ne_name (expanded st (filter user_declared bound)) else []) @
           body_named_expressions b"
    unfolding e using o(2) .
  show "body c = b" "where_clause c = w" "bound_symbols c = bound"
    unfolding e using o(3-5) .
qed

section \<open>The classifier on the example queries\<close>

lemmas visit_defs = Visit_PrimitiveLiteral_def Visit_ParameterLookup_def Visit_Identifier_def
  PostVisit_ListLiteral_def PostVisit_MapLiteral_def PostVisit_Function_def PostVisit_All_def
  PostVisit_BinaryOperator_def PostVisit_Aggregation_def PostVisit_NamedExpression_def
  Accept_NamedExpression_def emplace_flag_def pop_flag_def erase_last_flags_def at_def
  insert_symbol_def erase_symbol_def

lemmas context_defs = ReturnBodyContext_def collect_output_def collect_named_expression_def
  visit_where_def initial_context_def ExpandUserSymbols_def expand_symbol_def

lemma with_context_run:
  "ReturnBodyContext with_body with_table [sym_n] 7 (Some with_where) = Inr with_context"
  by (simp add: context_defs visit_defs with_body_def with_table_def with_where_def
      with_context_def sym_n_def sym_k_def sym_s_def sym_agg_def Let_def)

section \<open>Grouping by the subexpressions without aggregation\<close>

text \<open>
  A binary operator pops the flags of its two operands, pushes their disjunction, and
  groups by the operand without aggregation when exactly one has one.
\<close>

lemma PostVisit_BinaryOperator_groups:
  assumes "has_aggregation c = h @ [aggr1, aggr2]"
  shows "PostVisit_BinaryOperator e1 e2 c =
     Inr (c\<lparr>has_aggregation := h @ [aggr1 \<or> aggr2],
            group_by := group_by c @ (if aggr2 \<and> \<not> aggr1 then [e1] else [])
                                   @ (if aggr1 \<and> \<not> aggr2 then [e2] else [])\<rparr>)"
  using assms
  by (auto simp: PostVisit_BinaryOperator_def pop_flag_def emplace_flag_def Let_def butlast_append)

text \<open>
  A list literal, a map literal and a function call pop one flag per child and push
  their disjunction; \<open>group_by\<close> stays as it was, whatever the flags.
\<close>

lemma erase_last_flags_append:
  "has_aggregation c = h @ flags \<Longrightarrow> length flags = n \<Longrightarrow>
     erase_last_flags n c = c\<lparr>has_aggregation := h @ [list_ex (\<lambda>b. b) flags]\<rparr>"
  by (simp add: erase_last_flags_def Let_def)

lemma PostVisit_collections_do_not_group:
  assumes "has_aggregation c = h @ flags"
  shows "length flags = length es \<Longrightarrow> PostVisit_ListLiteral es c =
           Inr (c\<lparr>has_aggregation := h @ [list_ex (\<lambda>b. b) flags]\<rparr>)"
    and "length flags = length kvs \<Longrightarrow> PostVisit_MapLiteral kvs c =
           Inr (c\<lparr>has_aggregation := h @ [list_ex (\<lambda>b. b) flags]\<rparr>)"
    and "length flags = length es \<Longrightarrow> PostVisit_Function es c =
           Inr (c\<lparr>has_aggregation := h @ [list_ex (\<lambda>b. b) flags]\<rparr>)"
  using assms
  by (simp_all add: PostVisit_ListLiteral_def PostVisit_MapLiteral_def PostVisit_Function_def
      erase_last_flags_append)

text \<open>
  C4, at a failing input. For \<^verbatim>\<open>[count(n), n.k]\<close>, for \<^verbatim>\<open>f(count(n), n.k)\<close> and for
  \<^verbatim>\<open>{a: count(n), b: n.k}\<close> the classifier finds the aggregation and groups by
  nothing, although the child \<^verbatim>\<open>n.k\<close> holds no aggregation; for \<^verbatim>\<open>count(n) + n.k\<close> it
  groups by \<^verbatim>\<open>n.k\<close>.
\<close>

theorem collections_group_by_nothing:
  "(\<exists>c. ReturnBodyContext (list_body (ListLiteral [count_n, n_k])) list_table [sym_n] 5 None = Inr c
        \<and> aggregations c \<noteq> [] \<and> group_by c = [])
   \<and> (\<exists>c. ReturnBodyContext (list_body (Function ''f'' [count_n, n_k])) list_table [sym_n] 5 None = Inr c
        \<and> aggregations c \<noteq> [] \<and> group_by c = [])
   \<and> (\<exists>c. ReturnBodyContext (list_body (MapLiteral [(''a'', count_n), (''b'', n_k)])) list_table [sym_n] 5 None = Inr c
        \<and> aggregations c \<noteq> [] \<and> group_by c = [])
   \<and> (\<exists>c. ReturnBodyContext (list_body (BinaryOperator AdditionOperator count_n n_k)) list_table [sym_n] 5 None = Inr c
        \<and> aggregations c \<noteq> [] \<and> group_by c = [n_k])"
  by (simp add: context_defs visit_defs list_body_def list_table_def count_n_def n_k_def
      sym_n_def sym_agg_def sym_s_def Let_def)

section \<open>ORDER BY and WHERE under an aggregation\<close>

text \<open>
  The traversal neither reads nor writes the body and the WHERE clause the context
  holds: with other values in these two fields it runs the same way.
\<close>

lemma on_result_Inl [simp]: "on_result f (Inl e) = Inl e"
  by (simp add: on_result_def)

lemma on_result_Inr [simp]: "on_result f (Inr x) = Inr (f x)"
  by (simp add: on_result_def)

lemma reframe_emplace_flag: "emplace_flag x (reframe b w c) = reframe b w (emplace_flag x c)"
  by (simp add: reframe_def emplace_flag_def)

lemma reframe_pop_flag:
  "pop_flag (reframe b w c) = on_result (apsnd (reframe b w)) (pop_flag c)"
  by (simp add: reframe_def pop_flag_def)

lemma reframe_Visit_PrimitiveLiteral:
  "Visit_PrimitiveLiteral (reframe b w c) = on_result (reframe b w) (Visit_PrimitiveLiteral c)"
  by (simp add: reframe_def Visit_PrimitiveLiteral_def emplace_flag_def)

lemma reframe_Visit_ParameterLookup:
  "Visit_ParameterLookup (reframe b w c) = on_result (reframe b w) (Visit_ParameterLookup c)"
  by (simp add: reframe_def Visit_ParameterLookup_def emplace_flag_def)

lemma reframe_Visit_Identifier:
  "Visit_Identifier i (reframe b w c) = on_result (reframe b w) (Visit_Identifier i c)"
  by (cases "symbol_table c (uid i)")
     (simp_all add: reframe_def Visit_Identifier_def emplace_flag_def at_def Let_def)

lemma reframe_PostVisit_ListLiteral:
  "PostVisit_ListLiteral es (reframe b w c) = on_result (reframe b w) (PostVisit_ListLiteral es c)"
  by (simp add: reframe_def PostVisit_ListLiteral_def erase_last_flags_def Let_def)

lemma reframe_PostVisit_MapLiteral:
  "PostVisit_MapLiteral es (reframe b w c) = on_result (reframe b w) (PostVisit_MapLiteral es c)"
  by (simp add: reframe_def PostVisit_MapLiteral_def erase_last_flags_def Let_def)

lemma reframe_PostVisit_Function:
  "PostVisit_Function es (reframe b w c) = on_result (reframe b w) (PostVisit_Function es c)"
  by (simp add: reframe_def PostVisit_Function_def erase_last_flags_def Let_def)

lemma reframe_PostVisit_All:
  "PostVisit_All i (reframe b w c) = on_result (reframe b w) (PostVisit_All i c)"
  by (cases "symbol_table c (uid i)")
     (simp_all add: reframe_def PostVisit_All_def erase_last_flags_def at_def Let_def)

lemma reframe_PostVisit_BinaryOperator:
  "PostVisit_BinaryOperator e1 e2 (reframe b w c) =
     on_result (reframe b w) (PostVisit_BinaryOperator e1 e2 c)"
  by (simp add: reframe_def PostVisit_BinaryOperator_def pop_flag_def emplace_flag_def Let_def)

lemma reframe_PostVisit_Aggregation:
  "PostVisit_Aggregation u e1 e2 op (reframe b w c) =
     on_result (reframe b w) (PostVisit_Aggregation u e1 e2 op c)"
  by (cases "symbol_table c u")
     (simp_all add: reframe_def PostVisit_Aggregation_def pop_flag_def emplace_flag_def at_def Let_def)

lemma reframe_PostVisit_NamedExpression:
  "PostVisit_NamedExpression ne (reframe b w c) =
     on_result (reframe b w) (PostVisit_NamedExpression ne c)"
  by (simp add: reframe_def PostVisit_NamedExpression_def pop_flag_def)

lemma and_then_reframe:
  assumes "r' = on_result u r"
    and "\<And>x. r = Inr x \<Longrightarrow> f' (u x) = on_result v (f x)"
  shows "and_then r' f' = on_result v (and_then r f)"
  using assms by (cases r) simp_all

lemmas reframe_visits = reframe_Visit_PrimitiveLiteral reframe_Visit_ParameterLookup
  reframe_Visit_Identifier reframe_PostVisit_ListLiteral reframe_PostVisit_MapLiteral
  reframe_PostVisit_Function reframe_PostVisit_All reframe_PostVisit_BinaryOperator
  reframe_PostVisit_Aggregation

lemma Accept_reframe:
  "Accept e (reframe b w c) = on_result (reframe b w) (Accept e c)"
  and "Accept_list es (reframe b w c) = on_result (reframe b w) (Accept_list es c)"
  and "Accept_map kvs (reframe b w c) = on_result (reframe b w) (Accept_map kvs c)"
proof (induction e c and es c and kvs c rule: Accept_Accept_list_Accept_map.induct)
  case (1 v c)
  show ?case by (simp add: reframe_visits)
next
  case (2 elements c)
  show ?case unfolding Accept.simps
    by (rule and_then_reframe [OF "2.IH"]) (rule reframe_visits)
next
  case (3 elements c)
  show ?case unfolding Accept.simps
    by (rule and_then_reframe [OF "3.IH"]) (rule reframe_visits)
next
  case (4 ident c)
  show ?case by (simp add: reframe_visits)
next
  case (5 pos c)
  show ?case by (simp add: reframe_visits)
next
  case (6 e pr c)
  then show ?case by simp
next
  case (7 op e c)
  then show ?case by simp
next
  case (8 op expression1 expression2 c)
  show ?case unfolding Accept.simps
  proof (rule and_then_reframe [OF "8.IH"(1)])
    fix x assume x: "Accept expression1 c = Inr x"
    show "and_then (Accept expression2 (reframe b w x)) (PostVisit_BinaryOperator expression1 expression2) =
          on_result (reframe b w) (and_then (Accept expression2 x) (PostVisit_BinaryOperator expression1 expression2))"
      by (rule and_then_reframe [OF "8.IH"(2) [OF x]]) (rule reframe_visits)
  qed
next
  case (9 list lower_bound upper_bound c)
  show ?case unfolding Accept.simps
  proof (rule and_then_reframe [OF "9.IH"(1)])
    fix c1 assume c1: "Accept list c = Inr c1"
    let ?rest = "\<lambda>(list_has_aggr, c2).
     and_then (case lower_bound of
                 None \<Rightarrow> Inr (list_has_aggr, c2)
               | Some lb \<Rightarrow>
                   and_then (Accept lb c2) (\<lambda>c3.
                   and_then (pop_flag c3) (\<lambda>(b, c4). Inr (list_has_aggr \<or> b, c4)))) (\<lambda>(has_aggr1, c5).
     and_then (case upper_bound of
                 None \<Rightarrow> Inr (has_aggr1, c5)
               | Some ub \<Rightarrow>
                   and_then (Accept ub c5) (\<lambda>c6.
                   and_then (pop_flag c6) (\<lambda>(b, c7). Inr (has_aggr1 \<or> b, c7)))) (\<lambda>(has_aggr, c8).
       let c9 = (if has_aggr \<and> \<not> list_has_aggr then c8\<lparr>group_by := group_by c8 @ [list]\<rparr> else c8)
       in Inr (emplace_flag has_aggr c9)))"
    show "and_then (pop_flag (reframe b w c1)) ?rest =
          on_result (reframe b w) (and_then (pop_flag c1) ?rest)"
    proof (rule and_then_reframe [OF reframe_pop_flag])
      fix x assume x: "pop_flag c1 = Inr x"
      obtain l c2 where xe: "x = (l, c2)" by (cases x)
      have lower: "(case lower_bound of
                 None \<Rightarrow> Inr (l, reframe b w c2)
               | Some lb \<Rightarrow>
                   and_then (Accept lb (reframe b w c2)) (\<lambda>c3.
                   and_then (pop_flag c3) (\<lambda>(b, c4). Inr (l \<or> b, c4)))) =
             on_result (apsnd (reframe b w)) (case lower_bound of
                 None \<Rightarrow> Inr (l, c2)
               | Some lb \<Rightarrow>
                   and_then (Accept lb c2) (\<lambda>c3.
                   and_then (pop_flag c3) (\<lambda>(b, c4). Inr (l \<or> b, c4))))"
      proof (cases lower_bound)
        case None
        then show ?thesis by simp
      next
        case (Some lb)
        have "and_then (Accept lb (reframe b w c2)) (\<lambda>c3.
                   and_then (pop_flag c3) (\<lambda>(b, c4). Inr (l \<or> b, c4))) =
              on_result (apsnd (reframe b w)) (and_then (Accept lb c2) (\<lambda>c3.
                   and_then (pop_flag c3) (\<lambda>(b, c4). Inr (l \<or> b, c4))))"
        proof (rule and_then_reframe [OF "9.IH"(2) [OF c1 x [unfolded xe] refl Some]])
          fix c3
          show "and_then (pop_flag (reframe b w c3)) (\<lambda>(b, c4). Inr (l \<or> b, c4)) =
                on_result (apsnd (reframe b w)) (and_then (pop_flag c3) (\<lambda>(b, c4). Inr (l \<or> b, c4)))"
            by (rule and_then_reframe [OF reframe_pop_flag]) (auto split: prod.splits)
        qed
        with Some show ?thesis by simp
      qed
      show "?rest (apsnd (reframe b w) x) = on_result (reframe b w) (?rest x)"
        unfolding xe apsnd_conv prod.case
      proof (rule and_then_reframe [OF lower])
        fix y assume y: "(case lower_bound of
                 None \<Rightarrow> Inr (l, c2)
               | Some lb \<Rightarrow>
                   and_then (Accept lb c2) (\<lambda>c3.
                   and_then (pop_flag c3) (\<lambda>(b, c4). Inr (l \<or> b, c4)))) = Inr y"
        obtain h1 c5 where ye: "y = (h1, c5)" by (cases y)
        have upper: "(case upper_bound of
                 None \<Rightarrow> Inr (h1, reframe b w c5)
               | Some ub \<Rightarrow>
                   and_then (Accept ub (reframe b w c5)) (\<lambda>c6.
                   and_then (pop_flag c6) (\<lambda>(b, c7). Inr (h1 \<or> b, c7)))) =
             on_result (apsnd (reframe b w)) (case upper_bound of
                 None \<Rightarrow> Inr (h1, c5)
               | Some ub \<Rightarrow>
                   and_then (Accept ub c5) (\<lambda>c6.
                   and_then (pop_flag c6) (\<lambda>(b, c7). Inr (h1 \<or> b, c7))))"
        proof (cases upper_bound)
          case None
          then show ?thesis by simp
        next
          case (Some ub)
          have "and_then (Accept ub (reframe b w c5)) (\<lambda>c6.
                   and_then (pop_flag c6) (\<lambda>(b, c7). Inr (h1 \<or> b, c7))) =
              on_result (apsnd (reframe b w)) (and_then (Accept ub c5) (\<lambda>c6.
                   and_then (pop_flag c6) (\<lambda>(b, c7). Inr (h1 \<or> b, c7))))"
          proof (rule and_then_reframe
              [OF "9.IH"(3) [OF c1 x [unfolded xe] refl y [unfolded ye] refl Some]])
            fix c6
            show "and_then (pop_flag (reframe b w c6)) (\<lambda>(b, c7). Inr (h1 \<or> b, c7)) =
                on_result (apsnd (reframe b w)) (and_then (pop_flag c6) (\<lambda>(b, c7). Inr (h1 \<or> b, c7)))"
              by (rule and_then_reframe [OF reframe_pop_flag]) (auto split: prod.splits)
          qed
          with Some show ?thesis by simp
        qed
        show "(case apsnd (reframe b w) y of (has_aggr1, c5) \<Rightarrow>
     and_then (case upper_bound of
                 None \<Rightarrow> Inr (has_aggr1, c5)
               | Some ub \<Rightarrow>
                   and_then (Accept ub c5) (\<lambda>c6.
                   and_then (pop_flag c6) (\<lambda>(b, c7). Inr (has_aggr1 \<or> b, c7)))) (\<lambda>(has_aggr, c8).
       let c9 = (if has_aggr \<and> \<not> l then c8\<lparr>group_by := group_by c8 @ [list]\<rparr> else c8)
       in Inr (emplace_flag has_aggr c9))) =
          on_result (reframe b w) (case y of (has_aggr1, c5) \<Rightarrow>
     and_then (case upper_bound of
                 None \<Rightarrow> Inr (has_aggr1, c5)
               | Some ub \<Rightarrow>
                   and_then (Accept ub c5) (\<lambda>c6.
                   and_then (pop_flag c6) (\<lambda>(b, c7). Inr (has_aggr1 \<or> b, c7)))) (\<lambda>(has_aggr, c8).
       let c9 = (if has_aggr \<and> \<not> l then c8\<lparr>group_by := group_by c8 @ [list]\<rparr> else c8)
       in Inr (emplace_flag has_aggr c9)))"
          unfolding ye apsnd_conv prod.case
          by (rule and_then_reframe [OF upper])
             (auto simp: reframe_def emplace_flag_def Let_def split: prod.splits)
      qed
    qed
  qed
next
  case (10 condition then_expression else_expression c)
  show ?case unfolding Accept.simps
  proof (rule and_then_reframe [OF "10.IH"(1)])
    fix c1 assume c1: "Accept condition c = Inr c1"
    let ?r1 = "\<lambda>(b1, c2).
     and_then (Accept then_expression c2) (\<lambda>c3.
     and_then (pop_flag c3) (\<lambda>(b2, c4).
     and_then (Accept else_expression c4) (\<lambda>c5.
     and_then (pop_flag c5) (\<lambda>(b3, c6).
       let has_aggr = (b1 \<or> b2 \<or> b3)
       in if \<not> has_aggr then Inr (emplace_flag has_aggr c6)
          else Inl (CheckFailed ''Currently aggregations in CASE are not allowed'')))))"
    show "and_then (pop_flag (reframe b w c1)) ?r1 = on_result (reframe b w) (and_then (pop_flag c1) ?r1)"
    proof (rule and_then_reframe [OF reframe_pop_flag])
      fix x assume x: "pop_flag c1 = Inr x"
      obtain b1 c2 where xe: "x = (b1, c2)" by (cases x)
      show "?r1 (apsnd (reframe b w) x) = on_result (reframe b w) (?r1 x)"
        unfolding xe apsnd_conv prod.case
      proof (rule and_then_reframe [OF "10.IH"(2) [OF c1 x [unfolded xe] refl]])
        fix c3 assume c3: "Accept then_expression c2 = Inr c3"
        let ?r2 = "\<lambda>(b2, c4).
           and_then (Accept else_expression c4) (\<lambda>c5.
           and_then (pop_flag c5) (\<lambda>(b3, c6).
             let has_aggr = (b1 \<or> b2 \<or> b3)
             in if \<not> has_aggr then Inr (emplace_flag has_aggr c6)
                else Inl (CheckFailed ''Currently aggregations in CASE are not allowed'')))"
        show "and_then (pop_flag (reframe b w c3)) ?r2 = on_result (reframe b w) (and_then (pop_flag c3) ?r2)"
        proof (rule and_then_reframe [OF reframe_pop_flag])
          fix y assume y: "pop_flag c3 = Inr y"
          obtain b2 c4 where ye: "y = (b2, c4)" by (cases y)
          show "?r2 (apsnd (reframe b w) y) = on_result (reframe b w) (?r2 y)"
            unfolding ye apsnd_conv prod.case
          proof (rule and_then_reframe
              [OF "10.IH"(3) [OF c1 x [unfolded xe] refl c3 y [unfolded ye] refl]])
            fix c5
            show "and_then (pop_flag (reframe b w c5)) (\<lambda>(b3, c6).
               let has_aggr = (b1 \<or> b2 \<or> b3)
               in if \<not> has_aggr then Inr (emplace_flag has_aggr c6)
                  else Inl (CheckFailed ''Currently aggregations in CASE are not allowed'')) =
              on_result (reframe b w) (and_then (pop_flag c5) (\<lambda>(b3, c6).
               let has_aggr = (b1 \<or> b2 \<or> b3)
               in if \<not> has_aggr then Inr (emplace_flag has_aggr c6)
                  else Inl (CheckFailed ''Currently aggregations in CASE are not allowed'')))"
              by (rule and_then_reframe [OF reframe_pop_flag])
                 (auto simp: reframe_emplace_flag Let_def split: prod.splits)
          qed
        qed
      qed
    qed
  qed
next
  case (11 fname arguments c)
  show ?case unfolding Accept.simps
    by (rule and_then_reframe [OF "11.IH"]) (rule reframe_visits)
next
  case (12 ident list_expression where_expression c)
  show ?case unfolding Accept.simps
  proof (rule and_then_reframe [OF reframe_Visit_Identifier])
    fix c1 assume c1: "Visit_Identifier ident c = Inr c1"
    show "and_then (Accept list_expression (reframe b w c1))
           (\<lambda>c2. and_then (Accept where_expression c2) (PostVisit_All ident)) =
          on_result (reframe b w) (and_then (Accept list_expression c1)
           (\<lambda>c2. and_then (Accept where_expression c2) (PostVisit_All ident)))"
    proof (rule and_then_reframe [OF "12.IH"(1) [OF c1]])
      fix c2 assume c2: "Accept list_expression c1 = Inr c2"
      show "and_then (Accept where_expression (reframe b w c2)) (PostVisit_All ident) =
            on_result (reframe b w) (and_then (Accept where_expression c2) (PostVisit_All ident))"
        by (rule and_then_reframe [OF "12.IH"(2) [OF c1 c2]]) (rule reframe_visits)
    qed
  qed
next
  case (13 aggr_uid expression1 expression2 op c)
  have first: "(case expression1 of None \<Rightarrow> Inr (reframe b w c) | Some e1 \<Rightarrow> Accept e1 (reframe b w c)) =
        on_result (reframe b w) (case expression1 of None \<Rightarrow> Inr c | Some e1 \<Rightarrow> Accept e1 c)"
    using "13.IH"(1) by (cases expression1) simp_all
  show ?case unfolding Accept.simps
  proof (rule and_then_reframe [OF first])
    fix c1 assume c1: "(case expression1 of None \<Rightarrow> Inr c | Some e1 \<Rightarrow> Accept e1 c) = Inr c1"
    have second: "(case expression2 of None \<Rightarrow> Inr (reframe b w c1) | Some e2 \<Rightarrow> Accept e2 (reframe b w c1)) =
        on_result (reframe b w) (case expression2 of None \<Rightarrow> Inr c1 | Some e2 \<Rightarrow> Accept e2 c1)"
      using "13.IH"(2) [OF c1] by (cases expression2) simp_all
    show "and_then (case expression2 of None \<Rightarrow> Inr (reframe b w c1) | Some e2 \<Rightarrow> Accept e2 (reframe b w c1))
            (PostVisit_Aggregation aggr_uid expression1 expression2 op) =
          on_result (reframe b w) (and_then (case expression2 of None \<Rightarrow> Inr c1 | Some e2 \<Rightarrow> Accept e2 c1)
            (PostVisit_Aggregation aggr_uid expression1 expression2 op))"
      by (rule and_then_reframe [OF second]) (rule reframe_visits)
  qed
next
  case (14 c)
  show ?case by simp
next
  case (15 e es c)
  show ?case unfolding Accept_list.simps
    by (rule and_then_reframe [OF "15.IH"(1)]) (rule "15.IH"(2))
next
  case (16 c)
  show ?case by simp
next
  case (17 kv kvs c)
  show ?case unfolding Accept_map.simps
    by (rule and_then_reframe [OF "17.IH"(1)]) (rule "17.IH"(2))
qed

text \<open>So do the steps of the constructor that come before ORDER BY and WHERE.\<close>

lemma reframe_Accept_NamedExpression:
  "Accept_NamedExpression ne (reframe b w c) = on_result (reframe b w) (Accept_NamedExpression ne c)"
  unfolding Accept_NamedExpression_def
  by (rule and_then_reframe [OF Accept_reframe(1)]) (rule reframe_PostVisit_NamedExpression)

lemma reframe_collect_named_expression:
  "collect_named_expression ne (reframe b w c) =
     on_result (reframe b w) (collect_named_expression ne c)"
proof (cases "symbol_table c (ne_uid ne)")
  case None
  then show ?thesis by (simp add: collect_named_expression_def reframe_def at_def)
next
  case (Some s)
  let ?k = "\<lambda>c1. Inr (c1\<lparr>named_expressions := named_expressions c1 @ [ne]\<rparr>) :: failure + return_body_context"
  have step: "collect_named_expression ne x =
      and_then (Accept_NamedExpression ne (x\<lparr>output_symbols := output_symbols x @ [s]\<rparr>)) ?k"
    if "symbol_table x (ne_uid ne) = Some s" for x
    using that by (simp add: collect_named_expression_def at_def)
  have t: "symbol_table (reframe b w c) (ne_uid ne) = Some s"
    using Some by (simp add: reframe_def)
  have u: "(reframe b w c)\<lparr>output_symbols := output_symbols (reframe b w c) @ [s]\<rparr> =
           reframe b w (c\<lparr>output_symbols := output_symbols c @ [s]\<rparr>)"
    by (simp add: reframe_def)
  have "and_then (Accept_NamedExpression ne (reframe b w (c\<lparr>output_symbols := output_symbols c @ [s]\<rparr>))) ?k =
        on_result (reframe b w)
          (and_then (Accept_NamedExpression ne (c\<lparr>output_symbols := output_symbols c @ [s]\<rparr>)) ?k)"
    by (rule and_then_reframe [OF reframe_Accept_NamedExpression]) (simp add: reframe_def)
  then show ?thesis
    unfolding step [OF t] step [OF Some] u .
qed

lemma reframe_collect_named_expressions:
  "collect_named_expressions nes (reframe b w c) =
     on_result (reframe b w) (collect_named_expressions nes c)"
proof (induction nes arbitrary: c)
  case Nil
  show ?case by simp
next
  case (Cons ne nes)
  show ?case unfolding collect_named_expressions.simps
    by (rule and_then_reframe [OF reframe_collect_named_expression]) (rule Cons.IH)
qed

lemma reframe_expand_symbol: "expand_symbol s (reframe b w c) = reframe b w (expand_symbol s c)"
  by (simp add: expand_symbol_def reframe_def Let_def)

lemma reframe_fold_expand_symbol:
  "fold expand_symbol bs (reframe b w c) = reframe b w (fold expand_symbol bs c)"
  by (induction bs arbitrary: c) (simp_all add: reframe_expand_symbol)

lemma reframe_ExpandUserSymbols:
  "ExpandUserSymbols (reframe b w c) = on_result (reframe b w) (ExpandUserSymbols c)"
proof -
  have e: "bound_symbols (reframe b w c) = bound_symbols c"
    "named_expressions (reframe b w c) = named_expressions c"
    "output_symbols (reframe b w c) = output_symbols c"
    by (simp_all add: reframe_def)
  show ?thesis
    unfolding ExpandUserSymbols_def e Let_def reframe_fold_expand_symbol
    by (simp add: reframe_def)
qed

lemma reframe_collect_output:
  "collect_output b0 (reframe b w c) = on_result (reframe b w) (collect_output b0 c)"
  unfolding collect_output_def
  by (rule and_then_reframe [where u = "reframe b w"])
     (simp_all add: reframe_ExpandUserSymbols reframe_collect_named_expressions)

lemma collect_output_order_by:
  "collect_output (b\<lparr>body_order_by := obs\<rparr>) = collect_output b"
  by (rule ext) (simp add: collect_output_def)

lemma initial_context_reframe:
  "initial_context b' table bound st w' = reframe b' w' (initial_context b table bound st w)"
  by (simp add: initial_context_def reframe_def)

text \<open>
  With an aggregation among the named expressions, the constructor stops after them,
  and any ORDER BY and WHERE give the same context but for the two fields.
\<close>

lemma ReturnBodyContext_without_order_by_and_where:
  assumes "ReturnBodyContext b table bound st w = Inr c" and "aggregations c \<noteq> []"
  shows "collect_output b (initial_context b table bound st w) = Inr c"
    and "ReturnBodyContext (b\<lparr>body_order_by := obs\<rparr>) table bound st w' =
           Inr (c\<lparr>body := b\<lparr>body_order_by := obs\<rparr>, where_clause := w'\<rparr>)"
proof -
  have "\<exists>c2. collect_output b (initial_context b table bound st w) = Inr c2
      \<and> (aggregations c2 \<noteq> [] \<longrightarrow> c = c2) \<and> (aggregations c2 = [] \<longrightarrow> aggregations c = [])"
    using assms(1) by (rule ReturnBodyContext_cases) blast
  then obtain c2 where
    c2: "collect_output b (initial_context b table bound st w) = Inr c2"
    and n: "aggregations c2 \<noteq> [] \<Longrightarrow> c = c2"
    and e: "aggregations c2 = [] \<Longrightarrow> aggregations c = []"
    by blast
  from e assms(2) have ne: "aggregations c2 \<noteq> []" by blast
  with n have eq: "c = c2" by simp
  with c2 show "collect_output b (initial_context b table bound st w) = Inr c" by simp
  let ?b = "b\<lparr>body_order_by := obs\<rparr>"
  have "collect_output ?b (initial_context ?b table bound st w') =
        on_result (reframe ?b w') (collect_output b (initial_context b table bound st w))"
    unfolding collect_output_order_by
    by (subst initial_context_reframe [of ?b table bound st w' b w]) (rule reframe_collect_output)
  with c2 eq have "collect_output ?b (initial_context ?b table bound st w') = Inr (reframe ?b w' c)"
    by simp
  moreover have "aggregations (reframe ?b w' c) \<noteq> []"
    using assms(2) by (simp add: reframe_def)
  ultimately show "ReturnBodyContext ?b table bound st w' = Inr (c\<lparr>body := ?b, where_clause := w'\<rparr>)"
    by (simp add: ReturnBodyContext_def) (simp add: reframe_def)
qed

text \<open>
  A visit of an expression without ALL collects the symbols of its identifiers that
  are not output symbols, and no others.
\<close>

lemma collected_Nil: "collected c [] = {}"
  by (simp add: collected_def)

lemma collected_append: "collected c (xs @ ys) = collected c xs \<union> collected c ys"
  by (auto simp: collected_def)

lemma collected_same_frame: "same_frame c c' \<Longrightarrow> collected c' ids = collected c ids"
  by (simp add: collected_def same_frame_def)

lemma collects_refl: "collects [] c c"
  by (simp add: collects_def same_frame_refl collected_Nil)

lemma collects_trans: "collects xs a b \<Longrightarrow> collects ys b c \<Longrightarrow> collects (xs @ ys) a c"
  by (auto simp: collects_def collected_append collected_same_frame elim: same_frame_trans)

lemma collects_trans_Nil: "collects xs a b \<Longrightarrow> collects [] b c \<Longrightarrow> collects xs a c"
  using collects_trans [of xs a b "[]" c] by simp

lemma collects_emplace_flag: "collects [] c (emplace_flag b c)"
  by (simp add: collects_def same_frame_emplace_flag collected_Nil) (simp add: emplace_flag_def)

lemma collects_group_by: "collects [] c (c\<lparr>group_by := g\<rparr>)"
  by (simp add: collects_def same_frame_group_by collected_Nil)

lemma collects_pop_flag: "pop_flag c = Inr (b, c') \<Longrightarrow> collects [] c c'"
  by (auto simp: collects_def collected_Nil pop_flag_def same_frame_def split: if_splits)

lemma collects_Visit_PrimitiveLiteral: "Visit_PrimitiveLiteral c = Inr c' \<Longrightarrow> collects [] c c'"
  by (auto simp: Visit_PrimitiveLiteral_def collects_emplace_flag)

lemma collects_Visit_ParameterLookup: "Visit_ParameterLookup c = Inr c' \<Longrightarrow> collects [] c c'"
  by (auto simp: Visit_ParameterLookup_def collects_emplace_flag)

lemma collects_Visit_Identifier:
  assumes "Visit_Identifier i c = Inr c'"
  shows "collects [i] c c'"
proof -
  from assms obtain s where t: "symbol_table c (uid i) = Some s"
    and c': "c' = emplace_flag False
       (if s \<notin> set (output_symbols c)
        then c\<lparr>used_symbols := fst (insert_symbol s (used_symbols c))\<rparr> else c)"
    by (auto simp: Visit_Identifier_def and_then_Inr_iff at_Inr Let_def)
  have col: "collected c [i] = (if s \<notin> set (output_symbols c) then {s} else {})"
    using t by (auto simp: collected_def)
  show ?thesis
  proof (cases "s \<in> set (output_symbols c)")
    case True
    with c' col show ?thesis
      by (simp add: collects_def same_frame_def emplace_flag_def)
  next
    case False
    with c' col show ?thesis
      by (simp add: collects_def same_frame_def emplace_flag_def set_insert_symbol)
  qed
qed

lemma collects_erase_last_flags: "collects [] c (erase_last_flags n c)"
  by (simp add: collects_def same_frame_erase_last_flags collected_Nil)
     (simp add: erase_last_flags_def Let_def)

lemma collects_PostVisit_ListLiteral: "PostVisit_ListLiteral es c = Inr c' \<Longrightarrow> collects [] c c'"
  by (auto simp: PostVisit_ListLiteral_def collects_erase_last_flags split: if_splits)

lemma collects_PostVisit_MapLiteral: "PostVisit_MapLiteral es c = Inr c' \<Longrightarrow> collects [] c c'"
  by (auto simp: PostVisit_MapLiteral_def collects_erase_last_flags split: if_splits)

lemma collects_PostVisit_Function: "PostVisit_Function es c = Inr c' \<Longrightarrow> collects [] c c'"
  by (auto simp: PostVisit_Function_def collects_erase_last_flags split: if_splits)

lemma collects_PostVisit_BinaryOperator:
  "PostVisit_BinaryOperator e1 e2 c = Inr c' \<Longrightarrow> collects [] c c'"
  by (auto simp: PostVisit_BinaryOperator_def and_then_Inr_iff pop_flag_def collects_def
      collected_Nil same_frame_def emplace_flag_def Let_def split: if_splits)

lemma collects_PostVisit_Aggregation:
  "PostVisit_Aggregation u e1 e2 op c = Inr c' \<Longrightarrow> collects [] c c'"
  by (auto simp: PostVisit_Aggregation_def and_then_Inr_iff pop_flag_def collects_def
      collected_Nil same_frame_def emplace_flag_def Let_def split: if_splits)

lemma Accept_collects:
  "quantifier_free e \<Longrightarrow> Accept e c = Inr c' \<Longrightarrow> collects (identifiers e) c c'"
  and "quantifier_free_list es \<Longrightarrow> Accept_list es c = Inr c' \<Longrightarrow>
         collects (identifiers_list es) c c'"
  and "quantifier_free_map kvs \<Longrightarrow> Accept_map kvs c = Inr c' \<Longrightarrow>
         collects (identifiers_map kvs) c c'"
proof (induction e c and es c and kvs c arbitrary: c' and c' and c'
       rule: Accept_Accept_list_Accept_map.induct)
  case (1 v c)
  then show ?case by (simp add: collects_Visit_PrimitiveLiteral)
next
  case (2 elements c)
  from "2.prems" obtain c1 where
    a: "Accept_list elements c = Inr c1" "PostVisit_ListLiteral elements c1 = Inr c'"
    by (auto simp: and_then_Inr_iff)
  from "2.IH" [OF _ a(1)] "2.prems"(1) collects_PostVisit_ListLiteral [OF a(2)]
  show ?case by (auto intro: collects_trans_Nil)
next
  case (3 elements c)
  from "3.prems" obtain c1 where
    a: "Accept_map elements c = Inr c1" "PostVisit_MapLiteral elements c1 = Inr c'"
    by (auto simp: and_then_Inr_iff)
  from "3.IH" [OF _ a(1)] "3.prems"(1) collects_PostVisit_MapLiteral [OF a(2)]
  show ?case by (auto intro: collects_trans_Nil)
next
  case (4 ident c)
  then show ?case by (simp add: collects_Visit_Identifier)
next
  case (5 pos c)
  then show ?case by (simp add: collects_Visit_ParameterLookup)
next
  case (6 e pr c)
  then show ?case by simp
next
  case (7 op e c)
  then show ?case by simp
next
  case (8 op expression1 expression2 c)
  from "8.prems" obtain c1 c2 where
    a: "Accept expression1 c = Inr c1" "Accept expression2 c1 = Inr c2"
       "PostVisit_BinaryOperator expression1 expression2 c2 = Inr c'"
    by (auto simp: and_then_Inr_iff)
  from "8.prems"(1) have q: "quantifier_free expression1" "quantifier_free expression2" by simp_all
  from collects_trans [OF "8.IH"(1) [OF q(1) a(1)] "8.IH"(2) [OF a(1) q(2) a(2)]]
    collects_PostVisit_BinaryOperator [OF a(3)]
  show ?case by (auto intro: collects_trans_Nil)
next
  case (9 list lower_bound upper_bound c)
  from "9.prems"(2) obtain c1 b1 c2 h1 c5 h c8 where
    a: "Accept list c = Inr c1" "pop_flag c1 = Inr (b1, c2)"
       "(case lower_bound of None \<Rightarrow> Inr (b1, c2)
         | Some lb \<Rightarrow> and_then (Accept lb c2) (\<lambda>c3.
             and_then (pop_flag c3) (\<lambda>(b, c4). Inr (b1 \<or> b, c4)))) = Inr (h1, c5)"
       "(case upper_bound of None \<Rightarrow> Inr (h1, c5)
         | Some ub \<Rightarrow> and_then (Accept ub c5) (\<lambda>c6.
             and_then (pop_flag c6) (\<lambda>(b, c7). Inr (h1 \<or> b, c7)))) = Inr (h, c8)"
       "c' = emplace_flag h (if h \<and> \<not> b1 then c8\<lparr>group_by := group_by c8 @ [list]\<rparr> else c8)"
    by (auto simp: and_then_Inr_iff Let_def split: prod.splits)
  from "9.prems"(1) have q: "quantifier_free list"
    "\<And>lb. lower_bound = Some lb \<Longrightarrow> quantifier_free lb"
    "\<And>ub. upper_bound = Some ub \<Longrightarrow> quantifier_free ub"
    by simp_all
  have r1: "collects (identifiers list) c c2"
    using "9.IH"(1) [OF q(1) a(1)] collects_pop_flag [OF a(2)] by (rule collects_trans_Nil)
  have r2: "collects (case lower_bound of None \<Rightarrow> [] | Some lb \<Rightarrow> identifiers lb) c2 c5"
  proof (cases lower_bound)
    case None
    with a(3) show ?thesis by (simp add: collects_refl)
  next
    case (Some lb)
    with a(3) obtain c3 b where x: "Accept lb c2 = Inr c3" "pop_flag c3 = Inr (b, c5)"
      by (auto simp: and_then_Inr_iff split: prod.splits)
    from "9.IH"(2) [OF a(1) a(2) refl Some q(2) [OF Some] x(1)] collects_pop_flag [OF x(2)] Some
    show ?thesis by (auto intro: collects_trans_Nil)
  qed
  have r3: "collects (case upper_bound of None \<Rightarrow> [] | Some ub \<Rightarrow> identifiers ub) c5 c8"
  proof (cases upper_bound)
    case None
    with a(4) show ?thesis by (simp add: collects_refl)
  next
    case (Some ub)
    with a(4) obtain c6 b where x: "Accept ub c5 = Inr c6" "pop_flag c6 = Inr (b, c8)"
      by (auto simp: and_then_Inr_iff split: prod.splits)
    from "9.IH"(3) [OF a(1) a(2) refl a(3) refl Some q(3) [OF Some] x(1)]
      collects_pop_flag [OF x(2)] Some
    show ?thesis by (auto intro: collects_trans_Nil)
  qed
  have r4: "collects [] c8 c'"
  proof (cases "h \<and> \<not> b1")
    case True
    from collects_trans_Nil [OF collects_group_by [of c8 "group_by c8 @ [list]"]
        collects_emplace_flag [of "c8\<lparr>group_by := group_by c8 @ [list]\<rparr>" h]] True
    show ?thesis unfolding a(5) by simp
  next
    case False
    with collects_emplace_flag [of c8 h] show ?thesis unfolding a(5) by auto
  qed
  from collects_trans_Nil [OF collects_trans [OF collects_trans [OF r1 r2] r3] r4]
  show ?case by simp
next
  case (10 condition then_expression else_expression c)
  from "10.prems"(2) obtain c1 b1 c2 c3 b2 c4 c5 b3 c6 where
    a: "Accept condition c = Inr c1" "pop_flag c1 = Inr (b1, c2)"
       "Accept then_expression c2 = Inr c3" "pop_flag c3 = Inr (b2, c4)"
       "Accept else_expression c4 = Inr c5" "pop_flag c5 = Inr (b3, c6)"
       "c' = emplace_flag (b1 \<or> b2 \<or> b3) c6"
    by (auto simp: and_then_Inr_iff Let_def split: prod.splits if_splits)
  from "10.prems"(1) have q: "quantifier_free condition" "quantifier_free then_expression"
    "quantifier_free else_expression" by simp_all
  have r1: "collects (identifiers condition) c c2"
    using "10.IH"(1) [OF q(1) a(1)] collects_pop_flag [OF a(2)] by (rule collects_trans_Nil)
  have r2: "collects (identifiers then_expression) c2 c4"
    using "10.IH"(2) [OF a(1) a(2) refl q(2) a(3)] collects_pop_flag [OF a(4)]
    by (rule collects_trans_Nil)
  have r3: "collects (identifiers else_expression) c4 c6"
    using "10.IH"(3) [OF a(1) a(2) refl a(3) a(4) refl q(3) a(5)] collects_pop_flag [OF a(6)]
    by (rule collects_trans_Nil)
  have r4: "collects [] c6 c'" unfolding a(7) by (rule collects_emplace_flag)
  from collects_trans_Nil [OF collects_trans [OF collects_trans [OF r1 r2] r3] r4]
  show ?case by simp
next
  case (11 fname arguments c)
  from "11.prems" obtain c1 where
    a: "Accept_list arguments c = Inr c1" "PostVisit_Function arguments c1 = Inr c'"
    by (auto simp: and_then_Inr_iff)
  from "11.IH" [OF _ a(1)] "11.prems"(1) collects_PostVisit_Function [OF a(2)]
  show ?case by (auto intro: collects_trans_Nil)
next
  case (12 ident list_expression where_expression c)
  then show ?case by simp
next
  case (13 aggr_uid expression1 expression2 op c)
  from "13.prems"(2) obtain c1 c2 where
    a: "(case expression1 of None \<Rightarrow> Inr c | Some e1 \<Rightarrow> Accept e1 c) = Inr c1"
       "(case expression2 of None \<Rightarrow> Inr c1 | Some e2 \<Rightarrow> Accept e2 c1) = Inr c2"
       "PostVisit_Aggregation aggr_uid expression1 expression2 op c2 = Inr c'"
    by (auto simp: and_then_Inr_iff)
  have r1: "collects (case expression1 of None \<Rightarrow> [] | Some x \<Rightarrow> identifiers x) c c1"
    using a(1) "13.IH"(1) "13.prems"(1) by (cases expression1) (auto simp: collects_refl)
  have r2: "collects (case expression2 of None \<Rightarrow> [] | Some x \<Rightarrow> identifiers x) c1 c2"
    using a(2) "13.IH"(2) [OF a(1)] "13.prems"(1) by (cases expression2) (auto simp: collects_refl)
  from collects_trans_Nil [OF collects_trans [OF r1 r2] collects_PostVisit_Aggregation [OF a(3)]]
  show ?case by simp
next
  case (14 c)
  then show ?case by (simp add: collects_refl)
next
  case (15 e es c)
  from "15.prems"(2) obtain c1 where
    a: "Accept e c = Inr c1" "Accept_list es c1 = Inr c'"
    by (auto simp: and_then_Inr_iff)
  from "15.prems"(1) have q: "quantifier_free e" "quantifier_free_list es" by simp_all
  from collects_trans [OF "15.IH"(1) [OF q(1) a(1)] "15.IH"(2) [OF a(1) q(2) a(2)]]
  show ?case by simp
next
  case (16 c)
  then show ?case by (simp add: collects_refl)
next
  case (17 kv kvs c)
  from "17.prems"(2) obtain c1 where
    a: "Accept (snd kv) c = Inr c1" "Accept_map kvs c1 = Inr c'"
    by (auto simp: and_then_Inr_iff)
  from "17.prems"(1) have q: "quantifier_free (snd kv)" "quantifier_free_map kvs" by simp_all
  from collects_trans [OF "17.IH"(1) [OF q(1) a(1)] "17.IH"(2) [OF a(1) q(2) a(2)]]
  show ?case by simp
qed

lemma visit_order_by_collects:
  "list_all (\<lambda>order_pair. quantifier_free (snd order_pair)) obs \<Longrightarrow>
   visit_order_by obs c = Inr c' \<Longrightarrow>
   collects (concat (map (\<lambda>order_pair. identifiers (snd order_pair)) obs)) c c'"
proof (induction obs arbitrary: c)
  case Nil
  then show ?case by (simp add: collects_refl)
next
  case (Cons p obs)
  from Cons.prems(2) obtain c1 where
    a: "Accept (snd p) c = Inr c1" "visit_order_by obs c1 = Inr c'"
    by (auto simp: and_then_Inr_iff)
  from Cons.prems(1) have q: "quantifier_free (snd p)"
    "list_all (\<lambda>order_pair. quantifier_free (snd order_pair)) obs" by simp_all
  from collects_trans [OF Accept_collects(1) [OF q(1) a(1)] Cons.IH [OF q(2) a(2)]]
  show ?case by simp
qed

lemma visit_where_collects:
  "(case w of None \<Rightarrow> True | Some e \<Rightarrow> quantifier_free e) \<Longrightarrow> visit_where w c = Inr c' \<Longrightarrow>
   collects (case w of None \<Rightarrow> [] | Some e \<Rightarrow> identifiers e) c c'"
  by (cases w) (auto simp: visit_where_def collects_refl Accept_collects(1))

lemma plain_context_run:
  "ReturnBodyContext plain_body plain_table [sym_n, sym_a] 7 (Some plain_where) = Inr plain_context"
  by (simp add: context_defs visit_defs plain_body_def plain_table_def plain_where_def
      plain_context_def sym_n_def sym_k_def sym_a_def Let_def)

text \<open>
  C9. Let the constructor return a context. If its aggregation list is not empty,
  the context is the one reached after the named expressions: ORDER BY and WHERE
  were not visited, and with any other ORDER BY and WHERE the constructor returns
  the same context, with the same used symbols and the same group-by list, only the
  two clauses it passes through differing. If the aggregation list is empty, it was
  empty after the named expressions, the context is reached from there by visiting
  the ORDER BY expressions and then the WHERE clause, and, when neither holds an
  ALL, the used symbols grew by exactly the symbols of the identifiers of the two
  clauses that are not output symbols.
\<close>

theorem order_by_and_where_only_without_aggregation:
  assumes "ReturnBodyContext b table bound st w = Inr c"
  shows "\<exists>c2. collect_output b (initial_context b table bound st w) = Inr c2
     \<and> (aggregations c2 = [] \<longleftrightarrow> aggregations c = [])
     \<and> (aggregations c \<noteq> [] \<longrightarrow>
          c = c2 \<and>
          (\<forall>obs w'. ReturnBodyContext (b\<lparr>body_order_by := obs\<rparr>) table bound st w' =
                      Inr (c\<lparr>body := b\<lparr>body_order_by := obs\<rparr>, where_clause := w'\<rparr>)))
     \<and> (aggregations c = [] \<longrightarrow>
          (\<exists>c3. visit_order_by (body_order_by b) c2 = Inr c3 \<and> visit_where w c3 = Inr c) \<and>
          (clauses_quantifier_free (body_order_by b) w \<longrightarrow>
             set (used_symbols c) =
               set (used_symbols c2) \<union> collected c (clause_identifiers (body_order_by b) w)))"
proof -
  have "\<exists>c2. collect_output b (initial_context b table bound st w) = Inr c2
      \<and> same_frame c2 c
      \<and> (aggregations c2 \<noteq> [] \<longrightarrow> c = c2)
      \<and> (aggregations c2 = [] \<longrightarrow>
           (\<exists>c3. visit_order_by (body_order_by b) c2 = Inr c3 \<and> visit_where w c3 = Inr c
                \<and> aggregations c = []))"
    using assms by (rule ReturnBodyContext_cases) blast
  then obtain c2 where
    c2: "collect_output b (initial_context b table bound st w) = Inr c2"
    and f: "same_frame c2 c"
    and n: "aggregations c2 \<noteq> [] \<Longrightarrow> c = c2"
    and e: "aggregations c2 = [] \<Longrightarrow>
           \<exists>c3. visit_order_by (body_order_by b) c2 = Inr c3 \<and> visit_where w c3 = Inr c
                \<and> aggregations c = []"
    by blast
  have iff: "aggregations c2 = [] \<longleftrightarrow> aggregations c = []"
    using n e by auto
  have agg: "c = c2 \<and>
          (\<forall>obs w'. ReturnBodyContext (b\<lparr>body_order_by := obs\<rparr>) table bound st w' =
                      Inr (c\<lparr>body := b\<lparr>body_order_by := obs\<rparr>, where_clause := w'\<rparr>))"
    if "aggregations c \<noteq> []"
    using n iff that ReturnBodyContext_without_order_by_and_where(2) [OF assms that] by blast
  have plain: "(\<exists>c3. visit_order_by (body_order_by b) c2 = Inr c3 \<and> visit_where w c3 = Inr c) \<and>
          (clauses_quantifier_free (body_order_by b) w \<longrightarrow>
             set (used_symbols c) =
               set (used_symbols c2) \<union> collected c (clause_identifiers (body_order_by b) w))"
    if "aggregations c = []"
  proof -
    from that iff e obtain c3 where
      v: "visit_order_by (body_order_by b) c2 = Inr c3" "visit_where w c3 = Inr c"
      by blast
    have "set (used_symbols c) =
               set (used_symbols c2) \<union> collected c (clause_identifiers (body_order_by b) w)"
      if q: "clauses_quantifier_free (body_order_by b) w"
    proof -
      from q have q1: "list_all (\<lambda>order_pair. quantifier_free (snd order_pair)) (body_order_by b)"
        and q2: "case w of None \<Rightarrow> True | Some e \<Rightarrow> quantifier_free e"
        by (simp_all add: clauses_quantifier_free_def)
      from collects_trans [OF visit_order_by_collects [OF q1 v(1)] visit_where_collects [OF q2 v(2)]]
      have "collects (clause_identifiers (body_order_by b) w) c2 c"
        by (simp add: clause_identifiers_def)
      then show ?thesis
        using collected_same_frame [OF f] by (simp add: collects_def)
    qed
    with v show ?thesis by blast
  qed
  from c2 iff agg plain show ?thesis by blast
qed

theorem order_by_and_where_only_without_aggregation_witness:
  "ReturnBodyContext with_body with_table [sym_n] 7 (Some with_where) = Inr with_context
   \<and> aggregations with_context \<noteq> []
   \<and> ReturnBodyContext (with_body\<lparr>body_order_by := []\<rparr>) with_table [sym_n] 7 None =
       Inr (with_context\<lparr>body := with_body\<lparr>body_order_by := []\<rparr>, where_clause := None\<rparr>)
   \<and> ReturnBodyContext plain_body plain_table [sym_n, sym_a] 7 (Some plain_where) = Inr plain_context
   \<and> aggregations plain_context = []
   \<and> clauses_quantifier_free (body_order_by plain_body) (Some plain_where)
   \<and> sym_a \<in> set (used_symbols plain_context)
   \<and> sym_a \<in> collected plain_context (clause_identifiers (body_order_by plain_body) (Some plain_where))"
proof -
  have a: "aggregations with_context \<noteq> []" by (simp add: with_context_def)
  from order_by_and_where_only_without_aggregation [OF with_context_run] a
  have 1: "ReturnBodyContext (with_body\<lparr>body_order_by := []\<rparr>) with_table [sym_n] 7 None =
       Inr (with_context\<lparr>body := with_body\<lparr>body_order_by := []\<rparr>, where_clause := None\<rparr>)"
    by blast
  have p: "aggregations plain_context = []" by (simp add: plain_context_def)
  have q: "clauses_quantifier_free (body_order_by plain_body) (Some plain_where)"
    by (simp add: clauses_quantifier_free_def plain_body_def plain_where_def)
  have k: "sym_a \<in> collected plain_context (clause_identifiers (body_order_by plain_body) (Some plain_where))"
    by (simp add: collected_def clause_identifiers_def plain_context_def plain_body_def
        plain_where_def plain_table_def sym_a_def sym_k_def)
  from order_by_and_where_only_without_aggregation [OF plain_context_run] p q
  have "collected plain_context (clause_identifiers (body_order_by plain_body) (Some plain_where))
          \<subseteq> set (used_symbols plain_context)"
    by blast
  with k have u: "sym_a \<in> set (used_symbols plain_context)" by blast
  from with_context_run a 1 plain_context_run p q u k show ?thesis by blast
qed

section \<open>When the classifier returns\<close>

text \<open>
  A visit of an accepted expression returns, pushes the flag of the expression on the
  stack, keeps the symbol table, and appends an aggregation exactly when the
  expression holds one.
\<close>

lemma grown_refl: "grown False c c"
  by (simp add: grown_def)

lemma grown_trans: "grown f a b \<Longrightarrow> grown g b c \<Longrightarrow> grown (f \<or> g) a c"
  by (auto simp: grown_def)

lemma grown_fields:
  "grown f c c' \<Longrightarrow> symbol_table c'' = symbol_table c' \<Longrightarrow> aggregations c'' = aggregations c' \<Longrightarrow>
     grown f c c''"
  by (simp add: grown_def)

lemma visited_grown: "visited flags c c' \<Longrightarrow> grown (list_ex (\<lambda>b. b) flags) c c'"
  by (simp add: visited_def)

lemma visited_table: "visited flags c c' \<Longrightarrow> symbol_table c' = symbol_table c"
  by (simp add: visited_def grown_def)

lemma visited_flags: "visited flags c c' \<Longrightarrow> has_aggregation c' = has_aggregation c @ flags"
  by (simp add: visited_def)

lemma visited_Nil: "visited [] c c"
  by (simp add: visited_def grown_refl)

lemma visited_trans: "visited xs a b \<Longrightarrow> visited ys b c \<Longrightarrow> visited (xs @ ys) a c"
  using grown_trans [of "list_ex (\<lambda>b. b) xs" a b "list_ex (\<lambda>b. b) ys" c]
  by (simp add: visited_def)

lemma visited_push:
  "grown f c c1 \<Longrightarrow> has_aggregation c1 = has_aggregation c \<Longrightarrow> visited [f] c (emplace_flag f c1)"
  by (simp add: visited_def emplace_flag_def grown_def)

lemma visited_pop:
  assumes "visited [f] c c1"
  shows "\<exists>c2. pop_flag c1 = Inr (f, c2) \<and> has_aggregation c2 = has_aggregation c \<and> grown f c c2"
  using assms by (simp add: visited_def pop_flag_def grown_def)

lemma visited_collapse:
  assumes "visited flags c c1"
  shows "visited [list_ex (\<lambda>b. b) flags] c (erase_last_flags (length flags) c1)"
  using assms by (simp add: visited_def erase_last_flags_def Let_def grown_def)

lemma length_flags_list: "length (flags_list es) = length es"
  by (induction es) simp_all

lemma length_flags_map: "length (flags_map kvs) = length kvs"
  by (induction kvs) simp_all

lemma PostVisit_Aggregation_returns:
  assumes "symbol_table c aggr_uid = Some s" and "has_aggregation c = h @ fl"
    and "if op = Op_COLLECT_MAP then e1 \<noteq> None \<and> e2 \<noteq> None \<and> length fl = 2
         else e2 = None \<and> length fl = (if e1 = None then 0 else 1)"
  shows "PostVisit_Aggregation aggr_uid e1 e2 op c =
     Inr (c\<lparr>aggregations := aggregations c @
               [\<lparr>agg_value = e1, agg_key = e2, agg_op = op, output_sym = s\<rparr>],
            has_aggregation := h @ [True]\<rparr>)"
proof (cases "op = Op_COLLECT_MAP")
  case True
  with assms(3) obtain a b where fl: "fl = [a, b]" and e: "e1 \<noteq> None"
    by (cases fl; cases "tl fl") auto
  show ?thesis
    using assms(1,2) True e
    by (auto simp: PostVisit_Aggregation_def at_def pop_flag_def emplace_flag_def fl Let_def
        butlast_append)
next
  case False
  show ?thesis
  proof (cases e1)
    case None
    with assms(3) False have "fl = []" by simp
    with assms(1,2) False None show ?thesis
      by (simp add: PostVisit_Aggregation_def at_def pop_flag_def emplace_flag_def Let_def)
  next
    case (Some x)
    with assms(3) False obtain a where "fl = [a]" by (cases fl) auto
    with assms(1,2) False Some show ?thesis
      by (simp add: PostVisit_Aggregation_def at_def pop_flag_def emplace_flag_def Let_def
          butlast_append)
  qed
qed

lemma PostVisit_All_returns:
  assumes "symbol_table c (uid i) = Some s" and "has_aggregation c = h @ [a, b, d]"
  shows "PostVisit_All i c =
     Inr (c\<lparr>used_symbols := erase_symbol s (used_symbols c), has_aggregation := h @ [a \<or> b \<or> d]\<rparr>)"
  using assms
  by (auto simp: PostVisit_All_def at_def erase_last_flags_def Let_def)

lemma Visit_Identifier_returns:
  assumes "symbol_table c (uid i) \<noteq> None"
  shows "\<exists>c'. Visit_Identifier i c = Inr c' \<and> visited [False] c c'"
  using assms
  by (auto simp: Visit_Identifier_def at_def visited_def emplace_flag_def grown_def Let_def)


lemma Accept_returns:
  "classifiable (symbol_table c) e \<Longrightarrow>
     \<exists>c'. Accept e c = Inr c' \<and> visited [contains_aggregation e] c c'"
  and "classifiable_list (symbol_table c) es \<Longrightarrow>
     \<exists>c'. Accept_list es c = Inr c' \<and> visited (flags_list es) c c'"
  and "classifiable_map (symbol_table c) kvs \<Longrightarrow>
     \<exists>c'. Accept_map kvs c = Inr c' \<and> visited (flags_map kvs) c c'"
proof (induction e c and es c and kvs c rule: Accept_Accept_list_Accept_map.induct)
  case (1 v c)
  show ?case
    using visited_push [OF grown_refl [of c] refl]
    by (simp add: Visit_PrimitiveLiteral_def)
next
  case (2 elements c)
  from "2.IH" "2.prems" obtain c1 where
    a: "Accept_list elements c = Inr c1" and v: "visited (flags_list elements) c c1" by auto
  from visited_flags [OF v] have "length elements \<le> length (has_aggregation c1)"
    by (simp add: length_flags_list)
  with a visited_collapse [OF v] show ?case
    by (simp add: PostVisit_ListLiteral_def length_flags_list)
next
  case (3 elements c)
  from "3.IH" "3.prems" obtain c1 where
    a: "Accept_map elements c = Inr c1" and v: "visited (flags_map elements) c c1" by auto
  from visited_flags [OF v] have "length elements \<le> length (has_aggregation c1)"
    by (simp add: length_flags_map)
  with a visited_collapse [OF v] show ?case
    by (simp add: PostVisit_MapLiteral_def length_flags_map)
next
  case (4 ident c)
  then show ?case using Visit_Identifier_returns [of c ident] by simp
next
  case (5 pos c)
  show ?case
    using visited_push [OF grown_refl [of c] refl]
    by (simp add: Visit_ParameterLookup_def)
next
  case (6 e pr c)
  then show ?case by simp
next
  case (7 op e c)
  then show ?case by simp
next
  case (8 op expression1 expression2 c)
  from "8.prems" have q: "classifiable (symbol_table c) expression1"
    "classifiable (symbol_table c) expression2" by simp_all
  from "8.IH"(1) [OF q(1)] obtain c1 where
    a1: "Accept expression1 c = Inr c1" and v1: "visited [contains_aggregation expression1] c c1"
    by auto
  from q(2) visited_table [OF v1] have "classifiable (symbol_table c1) expression2" by simp
  from "8.IH"(2) [OF a1 this] obtain c2 where
    a2: "Accept expression2 c1 = Inr c2" and v2: "visited [contains_aggregation expression2] c1 c2"
    by auto
  from visited_trans [OF v1 v2]
  have v: "visited [contains_aggregation expression1, contains_aggregation expression2] c c2"
    by simp
  from PostVisit_BinaryOperator_groups [OF visited_flags [OF v], of expression1 expression2]
  obtain c' where p: "PostVisit_BinaryOperator expression1 expression2 c2 = Inr c'"
    and h: "has_aggregation c' = has_aggregation c @
              [contains_aggregation expression1 \<or> contains_aggregation expression2]"
    and f: "symbol_table c' = symbol_table c2" "aggregations c' = aggregations c2"
    by simp
  from grown_fields [OF visited_grown [OF v] f] h
  have "visited [contains_aggregation (BinaryOperator op expression1 expression2)] c c'"
    by (simp add: visited_def)
  with a1 a2 p show ?case by simp
next
  case (9 list lower_bound upper_bound c)
  from "9.prems" have q: "classifiable (symbol_table c) list"
    "\<And>lb. lower_bound = Some lb \<Longrightarrow> classifiable (symbol_table c) lb"
    "\<And>ub. upper_bound = Some ub \<Longrightarrow> classifiable (symbol_table c) ub"
    by simp_all
  let ?f0 = "contains_aggregation list"
  let ?fl = "case lower_bound of None \<Rightarrow> False | Some lb \<Rightarrow> contains_aggregation lb"
  let ?fu = "case upper_bound of None \<Rightarrow> False | Some ub \<Rightarrow> contains_aggregation ub"
  from "9.IH"(1) [OF q(1)] obtain c1 where
    a1: "Accept list c = Inr c1" and v1: "visited [?f0] c c1" by auto
  from visited_pop [OF v1] obtain c2 where
    p1: "pop_flag c1 = Inr (?f0, c2)" and h2: "has_aggregation c2 = has_aggregation c"
    and g2: "grown ?f0 c c2" by auto
  have t2: "symbol_table c2 = symbol_table c" using g2 by (simp add: grown_def)
  have lower: "\<exists>c5. (case lower_bound of
                 None \<Rightarrow> Inr (?f0, c2)
               | Some lb \<Rightarrow>
                   and_then (Accept lb c2) (\<lambda>c3.
                   and_then (pop_flag c3) (\<lambda>(b, c4). Inr (?f0 \<or> b, c4)))) = Inr (?f0 \<or> ?fl, c5)
            \<and> has_aggregation c5 = has_aggregation c \<and> grown (?f0 \<or> ?fl) c c5"
  proof (cases lower_bound)
    case None
    with h2 g2 show ?thesis by simp
  next
    case (Some lb)
    from q(2) [OF Some] t2 have "classifiable (symbol_table c2) lb" by simp
    from "9.IH"(2) [OF a1 p1 refl Some this] obtain c3 where
      a3: "Accept lb c2 = Inr c3" and v3: "visited [contains_aggregation lb] c2 c3" by auto
    from visited_pop [OF v3] obtain c4 where
      p3: "pop_flag c3 = Inr (contains_aggregation lb, c4)"
      and h4: "has_aggregation c4 = has_aggregation c2"
      and g4: "grown (contains_aggregation lb) c2 c4" by auto
    from grown_trans [OF g2 g4] h4 h2 a3 p3 Some show ?thesis by simp
  qed
  then obtain c5 where
    l5: "(case lower_bound of
                 None \<Rightarrow> Inr (?f0, c2)
               | Some lb \<Rightarrow>
                   and_then (Accept lb c2) (\<lambda>c3.
                   and_then (pop_flag c3) (\<lambda>(b, c4). Inr (?f0 \<or> b, c4)))) = Inr (?f0 \<or> ?fl, c5)"
    and h5: "has_aggregation c5 = has_aggregation c" and g5: "grown (?f0 \<or> ?fl) c c5"
    by auto
  have t5: "symbol_table c5 = symbol_table c" using g5 by (simp add: grown_def)
  have upper: "\<exists>c8. (case upper_bound of
                 None \<Rightarrow> Inr (?f0 \<or> ?fl, c5)
               | Some ub \<Rightarrow>
                   and_then (Accept ub c5) (\<lambda>c6.
                   and_then (pop_flag c6) (\<lambda>(b, c7). Inr ((?f0 \<or> ?fl) \<or> b, c7)))) =
               Inr ((?f0 \<or> ?fl) \<or> ?fu, c8)
            \<and> has_aggregation c8 = has_aggregation c \<and> grown ((?f0 \<or> ?fl) \<or> ?fu) c c8"
  proof (cases upper_bound)
    case None
    with h5 g5 show ?thesis by simp
  next
    case (Some ub)
    from q(3) [OF Some] t5 have "classifiable (symbol_table c5) ub" by simp
    from "9.IH"(3) [OF a1 p1 refl l5 refl Some this] obtain c6 where
      a6: "Accept ub c5 = Inr c6" and v6: "visited [contains_aggregation ub] c5 c6" by auto
    from visited_pop [OF v6] obtain c7 where
      p6: "pop_flag c6 = Inr (contains_aggregation ub, c7)"
      and h7: "has_aggregation c7 = has_aggregation c5"
      and g7: "grown (contains_aggregation ub) c5 c7" by auto
    from grown_trans [OF g5 g7] h7 h5 a6 p6 Some show ?thesis by simp
  qed
  then obtain c8 where
    u8: "(case upper_bound of
                 None \<Rightarrow> Inr (?f0 \<or> ?fl, c5)
               | Some ub \<Rightarrow>
                   and_then (Accept ub c5) (\<lambda>c6.
                   and_then (pop_flag c6) (\<lambda>(b, c7). Inr ((?f0 \<or> ?fl) \<or> b, c7)))) =
               Inr ((?f0 \<or> ?fl) \<or> ?fu, c8)"
    and h8: "has_aggregation c8 = has_aggregation c" and g8: "grown ((?f0 \<or> ?fl) \<or> ?fu) c c8"
    by auto
  let ?h = "(?f0 \<or> ?fl) \<or> ?fu"
  let ?c9 = "if ?h \<and> \<not> ?f0 then c8\<lparr>group_by := group_by c8 @ [list]\<rparr> else c8"
  have g9: "grown ?h c ?c9" and h9: "has_aggregation ?c9 = has_aggregation c"
    using g8 h8 by (auto simp: grown_def)
  have run: "Accept (ListSlicingOperator list lower_bound upper_bound) c = Inr (emplace_flag ?h ?c9)"
    unfolding Accept.simps using a1 p1 l5 u8 by (simp add: Let_def)
  from visited_push [OF g9 h9] run show ?case by (simp del: Accept.simps)
next
  case (10 condition then_expression else_expression c)
  from "10.prems" have q: "classifiable (symbol_table c) condition"
    "classifiable (symbol_table c) then_expression" "classifiable (symbol_table c) else_expression"
    and n: "\<not> contains_aggregation condition" "\<not> contains_aggregation then_expression"
      "\<not> contains_aggregation else_expression"
    by simp_all
  from "10.IH"(1) [OF q(1)] n(1) obtain c1 where
    a1: "Accept condition c = Inr c1" and v1: "visited [False] c c1" by auto
  from visited_pop [OF v1] obtain c2 where
    p1: "pop_flag c1 = Inr (False, c2)" and h2: "has_aggregation c2 = has_aggregation c"
    and g2: "grown False c c2" by auto
  have t2: "symbol_table c2 = symbol_table c" using g2 by (simp add: grown_def)
  from q(2) t2 have "classifiable (symbol_table c2) then_expression" by simp
  from "10.IH"(2) [OF a1 p1 refl this] n(2) obtain c3 where
    a3: "Accept then_expression c2 = Inr c3" and v3: "visited [False] c2 c3" by auto
  from visited_pop [OF v3] obtain c4 where
    p3: "pop_flag c3 = Inr (False, c4)" and h4: "has_aggregation c4 = has_aggregation c2"
    and g4: "grown False c2 c4" by auto
  have t4: "symbol_table c4 = symbol_table c" using g4 t2 by (simp add: grown_def)
  from q(3) t4 have "classifiable (symbol_table c4) else_expression" by simp
  from "10.IH"(3) [OF a1 p1 refl a3 p3 refl this] n(3) obtain c5 where
    a5: "Accept else_expression c4 = Inr c5" and v5: "visited [False] c4 c5" by auto
  from visited_pop [OF v5] obtain c6 where
    p5: "pop_flag c5 = Inr (False, c6)" and h6: "has_aggregation c6 = has_aggregation c4"
    and g6: "grown False c4 c6" by auto
  from grown_trans [OF grown_trans [OF g2 g4] g6] have g: "grown False c c6" by simp
  have h: "has_aggregation c6 = has_aggregation c" using h2 h4 h6 by simp
  have run: "Accept (IfOperator condition then_expression else_expression) c =
               Inr (emplace_flag False c6)"
    unfolding Accept.simps using a1 p1 a3 p3 a5 p5 by (simp add: Let_def)
  from visited_push [OF g h] run n show ?case by (simp del: Accept.simps)
next
  case (11 fname arguments c)
  from "11.IH" "11.prems" obtain c1 where
    a: "Accept_list arguments c = Inr c1" and v: "visited (flags_list arguments) c c1" by auto
  from visited_flags [OF v] have "length arguments \<le> length (has_aggregation c1)"
    by (simp add: length_flags_list)
  with a visited_collapse [OF v] show ?case
    by (simp add: PostVisit_Function_def length_flags_list)
next
  case (12 ident list_expression where_expression c)
  from "12.prems" have q: "symbol_table c (uid ident) \<noteq> None"
    "classifiable (symbol_table c) list_expression"
    "classifiable (symbol_table c) where_expression" by simp_all
  from Visit_Identifier_returns [OF q(1)] obtain c1 where
    a1: "Visit_Identifier ident c = Inr c1" and v1: "visited [False] c c1" by auto
  from q(2) visited_table [OF v1] have "classifiable (symbol_table c1) list_expression" by simp
  from "12.IH"(1) [OF a1 this] obtain c2 where
    a2: "Accept list_expression c1 = Inr c2"
    and v2: "visited [contains_aggregation list_expression] c1 c2" by auto
  from q(3) visited_table [OF v1] visited_table [OF v2]
  have "classifiable (symbol_table c2) where_expression" by simp
  from "12.IH"(2) [OF a1 a2 this] obtain c3 where
    a3: "Accept where_expression c2 = Inr c3"
    and v3: "visited [contains_aggregation where_expression] c2 c3" by auto
  from visited_trans [OF visited_trans [OF v1 v2] v3]
  have v: "visited [False, contains_aggregation list_expression,
                    contains_aggregation where_expression] c c3" by simp
  from q(1) visited_table [OF v] obtain s where s: "symbol_table c3 (uid ident) = Some s"
    by auto
  from PostVisit_All_returns [OF s visited_flags [OF v]]
  obtain c' where p: "PostVisit_All ident c3 = Inr c'"
    and h: "has_aggregation c' = has_aggregation c @
              [False \<or> contains_aggregation list_expression \<or> contains_aggregation where_expression]"
    and f: "symbol_table c' = symbol_table c3" "aggregations c' = aggregations c3"
    by simp
  from grown_fields [OF visited_grown [OF v] f] h
  have "visited [contains_aggregation (All ident list_expression where_expression)] c c'"
    by (simp add: visited_def)
  with a1 a2 a3 p show ?case by simp
next
  case (13 aggr_uid expression1 expression2 op c)
  from "13.prems" have u: "symbol_table c aggr_uid \<noteq> None"
    and shape: "if op = Op_COLLECT_MAP then expression1 \<noteq> None \<and> expression2 \<noteq> None
                else expression2 = None"
    and q: "\<And>x. expression1 = Some x \<Longrightarrow> classifiable (symbol_table c) x"
      "\<And>x. expression2 = Some x \<Longrightarrow> classifiable (symbol_table c) x"
    by simp_all
  let ?fl1 = "case expression1 of None \<Rightarrow> [] | Some x \<Rightarrow> [contains_aggregation x]"
  let ?fl2 = "case expression2 of None \<Rightarrow> [] | Some x \<Rightarrow> [contains_aggregation x]"
  have first: "\<exists>c1. (case expression1 of None \<Rightarrow> Inr c | Some e1 \<Rightarrow> Accept e1 c) = Inr c1
      \<and> visited ?fl1 c c1"
    using "13.IH"(1) q(1) by (cases expression1) (auto simp: visited_Nil)
  then obtain c1 where
    a1: "(case expression1 of None \<Rightarrow> Inr c | Some e1 \<Rightarrow> Accept e1 c) = Inr c1"
    and v1: "visited ?fl1 c c1" by auto
  have t1: "symbol_table c1 = symbol_table c" using v1 by (rule visited_table)
  have second: "\<exists>c2. (case expression2 of None \<Rightarrow> Inr c1 | Some e2 \<Rightarrow> Accept e2 c1) = Inr c2
      \<and> visited ?fl2 c1 c2"
    using "13.IH"(2) [OF a1] q(2) t1 by (cases expression2) (auto simp: visited_Nil)
  then obtain c2 where
    a2: "(case expression2 of None \<Rightarrow> Inr c1 | Some e2 \<Rightarrow> Accept e2 c1) = Inr c2"
    and v2: "visited ?fl2 c1 c2" by auto
  note v = visited_trans [OF v1 v2]
  from u visited_table [OF v] obtain s where s: "symbol_table c2 aggr_uid = Some s" by auto
  have len: "if op = Op_COLLECT_MAP
             then expression1 \<noteq> None \<and> expression2 \<noteq> None \<and> length (?fl1 @ ?fl2) = 2
             else expression2 = None \<and> length (?fl1 @ ?fl2) = (if expression1 = None then 0 else 1)"
    using shape by (cases expression1; cases expression2) (auto split: if_splits)
  from PostVisit_Aggregation_returns [OF s visited_flags [OF v] len]
  obtain c' where p: "PostVisit_Aggregation aggr_uid expression1 expression2 op c2 = Inr c'"
    and h: "has_aggregation c' = has_aggregation c @ [True]"
    and f: "symbol_table c' = symbol_table c2"
      "aggregations c' = aggregations c2 @
         [\<lparr>agg_value = expression1, agg_key = expression2, agg_op = op, output_sym = s\<rparr>]"
    by simp
  from visited_grown [OF v] f visited_table [OF v] have "grown True c c'"
    by (auto simp: grown_def)
  with h have "visited [True] c c'" by (simp add: visited_def)
  with a1 a2 p show ?case by simp
next
  case (14 c)
  show ?case by (simp add: visited_Nil)
next
  case (15 e es c)
  from "15.prems" have q: "classifiable (symbol_table c) e" "classifiable_list (symbol_table c) es"
    by simp_all
  from "15.IH"(1) [OF q(1)] obtain c1 where
    a1: "Accept e c = Inr c1" and v1: "visited [contains_aggregation e] c c1" by auto
  from q(2) visited_table [OF v1] have "classifiable_list (symbol_table c1) es" by simp
  from "15.IH"(2) [OF a1 this] obtain c2 where
    a2: "Accept_list es c1 = Inr c2" and v2: "visited (flags_list es) c1 c2" by auto
  from visited_trans [OF v1 v2] a1 a2 show ?case by simp
next
  case (16 c)
  show ?case by (simp add: visited_Nil)
next
  case (17 kv kvs c)
  from "17.prems" have q: "classifiable (symbol_table c) (snd kv)"
    "classifiable_map (symbol_table c) kvs" by simp_all
  from "17.IH"(1) [OF q(1)] obtain c1 where
    a1: "Accept (snd kv) c = Inr c1" and v1: "visited [contains_aggregation (snd kv)] c c1" by auto
  from q(2) visited_table [OF v1] have "classifiable_map (symbol_table c1) kvs" by simp
  from "17.IH"(2) [OF a1 this] obtain c2 where
    a2: "Accept_map kvs c1 = Inr c2" and v2: "visited (flags_map kvs) c1 c2" by auto
  from visited_trans [OF v1 v2] a1 a2 show ?case by simp
qed


text \<open>
  The classifier only asks whether a uid has a symbol, so what it accepts it accepts
  under every symbol table with more uids, such as the one after the expansion of
  \<^verbatim>\<open>*\<close>.
\<close>

lemma classifiable_grows:
  "classifiable t e \<Longrightarrow> (\<forall>u. t u \<noteq> None \<longrightarrow> t' u \<noteq> None) \<Longrightarrow> classifiable t' e"
  "classifiable_list t es \<Longrightarrow> (\<forall>u. t u \<noteq> None \<longrightarrow> t' u \<noteq> None) \<Longrightarrow> classifiable_list t' es"
  "classifiable_map t kvs \<Longrightarrow> (\<forall>u. t u \<noteq> None \<longrightarrow> t' u \<noteq> None) \<Longrightarrow> classifiable_map t' kvs"
proof (induction t e and t es and t kvs rule: classifiable_classifiable_list_classifiable_map.induct)
  case (9 table list lower_bound upper_bound)
  then show ?case by (cases lower_bound; cases upper_bound) simp_all
next
  case (13 table u e1 e2 op)
  then show ?case by (cases e1; cases e2) (simp_all split: if_splits)
qed simp_all

lemma classifiable_mono:
  assumes "\<And>u. t u \<noteq> None \<Longrightarrow> t' u \<noteq> None" and "classifiable t e"
  shows "classifiable t' e"
  using classifiable_grows(1) [OF assms(2), of t'] assms(1) by blast

lemma Accept_NamedExpression_returns:
  assumes "has_aggregation c = []" and "classifiable (symbol_table c) (ne_expression ne)"
  shows "\<exists>c'. Accept_NamedExpression ne c = Inr c' \<and> has_aggregation c' = []
           \<and> grown (contains_aggregation (ne_expression ne)) c c'"
proof -
  from Accept_returns(1) [OF assms(2)] obtain c1 where
    a: "Accept (ne_expression ne) c = Inr c1"
    and v: "visited [contains_aggregation (ne_expression ne)] c c1" by auto
  from visited_flags [OF v] assms(1)
  have h: "has_aggregation c1 = [contains_aggregation (ne_expression ne)]" by simp
  from visited_grown [OF v] have g: "grown (contains_aggregation (ne_expression ne)) c c1" by simp
  show ?thesis
    using a h g
    by (auto simp: Accept_NamedExpression_def PostVisit_NamedExpression_def pop_flag_def grown_def)
qed

lemma collect_named_expression_returns:
  assumes "has_aggregation c = []" and "symbol_table c (ne_uid ne) \<noteq> None"
    and "classifiable (symbol_table c) (ne_expression ne)"
  shows "\<exists>c'. collect_named_expression ne c = Inr c' \<and> has_aggregation c' = []
           \<and> grown (contains_aggregation (ne_expression ne)) c c'"
proof -
  from assms(2) obtain s where s: "symbol_table c (ne_uid ne) = Some s" by auto
  let ?c0 = "c\<lparr>output_symbols := output_symbols c @ [s]\<rparr>"
  have "has_aggregation ?c0 = []" "classifiable (symbol_table ?c0) (ne_expression ne)"
    using assms by simp_all
  from Accept_NamedExpression_returns [OF this] obtain c1 where
    a: "Accept_NamedExpression ne ?c0 = Inr c1" and h: "has_aggregation c1 = []"
    and g: "grown (contains_aggregation (ne_expression ne)) ?c0 c1" by auto
  show ?thesis
    using s a h g by (simp add: collect_named_expression_def at_def grown_def)
qed

lemma collect_named_expressions_returns:
  "has_aggregation c = [] \<Longrightarrow>
   list_all (\<lambda>ne. symbol_table c (ne_uid ne) \<noteq> None \<and> classifiable (symbol_table c) (ne_expression ne)) nes \<Longrightarrow>
     \<exists>c'. collect_named_expressions nes c = Inr c' \<and> has_aggregation c' = []
         \<and> grown (list_ex (\<lambda>ne. contains_aggregation (ne_expression ne)) nes) c c'"
proof (induction nes arbitrary: c)
  case Nil
  then show ?case by (simp add: grown_refl)
next
  case (Cons ne nes)
  from Cons.prems have q: "symbol_table c (ne_uid ne) \<noteq> None"
    "classifiable (symbol_table c) (ne_expression ne)" by simp_all
  from collect_named_expression_returns [OF Cons.prems(1) q] obtain c1 where
    a: "collect_named_expression ne c = Inr c1" and h: "has_aggregation c1 = []"
    and g: "grown (contains_aggregation (ne_expression ne)) c c1" by auto
  from g have t: "symbol_table c1 = symbol_table c" by (simp add: grown_def)
  from Cons.prems(2) have "list_all (\<lambda>ne. symbol_table c1 (ne_uid ne) \<noteq> None \<and>
      classifiable (symbol_table c1) (ne_expression ne)) nes" unfolding t by simp
  from Cons.IH [OF h this] obtain c' where
    r: "collect_named_expressions nes c1 = Inr c'" and h': "has_aggregation c' = []"
    and g': "grown (list_ex (\<lambda>ne. contains_aggregation (ne_expression ne)) nes) c1 c'" by auto
  from grown_trans [OF g g'] a r h' show ?case by simp
qed

lemma visit_order_by_returns:
  "list_all (\<lambda>order_pair. classifiable (symbol_table c) (snd order_pair)) obs \<Longrightarrow>
     \<exists>c'. visit_order_by obs c = Inr c'
         \<and> grown (list_ex (\<lambda>order_pair. contains_aggregation (snd order_pair)) obs) c c'"
proof (induction obs arbitrary: c)
  case Nil
  then show ?case by (simp add: grown_refl)
next
  case (Cons order_pair obs)
  from Cons.prems have q: "classifiable (symbol_table c) (snd order_pair)" by simp
  from Accept_returns(1) [OF q] obtain c1 where
    a: "Accept (snd order_pair) c = Inr c1"
    and v: "visited [contains_aggregation (snd order_pair)] c c1" by auto
  from visited_grown [OF v] have g: "grown (contains_aggregation (snd order_pair)) c c1" by simp
  from Cons.prems have "list_all (\<lambda>order_pair. classifiable (symbol_table c1) (snd order_pair)) obs"
    unfolding visited_table [OF v] by simp
  from Cons.IH [OF this] obtain c' where
    r: "visit_order_by obs c1 = Inr c'"
    and g': "grown (list_ex (\<lambda>order_pair. contains_aggregation (snd order_pair)) obs) c1 c'" by auto
  from grown_trans [OF g g'] a r show ?case by simp
qed

lemma visit_where_returns:
  assumes "case w of None \<Rightarrow> True | Some e \<Rightarrow> classifiable (symbol_table c) e"
  shows "\<exists>c'. visit_where w c = Inr c'
         \<and> grown (case w of None \<Rightarrow> False | Some e \<Rightarrow> contains_aggregation e) c c'"
proof (cases w)
  case None
  then show ?thesis by (simp add: visit_where_def grown_refl)
next
  case (Some e)
  with assms have "classifiable (symbol_table c) e" by simp
  from Accept_returns(1) [OF this] obtain c1 where
    a: "Accept e c = Inr c1" and v: "visited [contains_aggregation e] c c1" by auto
  from visited_grown [OF v] a Some show ?thesis by (simp add: visit_where_def)
qed

lemma fold_expand_symbol_dom:
  "symbol_table c u \<noteq> None \<Longrightarrow> symbol_table (fold expand_symbol bs c) u \<noteq> None"
proof (induction bs arbitrary: c)
  case Nil
  then show ?case by simp
next
  case (Cons s bs)
  have "symbol_table (expand_symbol s c) u \<noteq> None"
    using Cons.prems by (cases "user_declared s") (simp_all add: expand_symbol_user expand_symbol_other)
  from Cons.IH [OF this] show ?case by simp
qed

lemma collect_output_returns:
  assumes "list_all (\<lambda>ne. table (ne_uid ne) \<noteq> None \<and> classifiable table (ne_expression ne))
       (body_named_expressions b)"
  shows "\<exists>c2. collect_output b (initial_context b table bound st w) = Inr c2
      \<and> (aggregations c2 = [] \<longleftrightarrow>
           \<not> list_ex (\<lambda>ne. contains_aggregation (ne_expression ne)) (body_named_expressions b))
      \<and> (\<forall>u. table u \<noteq> None \<longrightarrow> symbol_table c2 u \<noteq> None)"
proof -
  let ?ini = "initial_context b table bound st w"
  have "\<exists>c1. (if body_all_identifiers b then ExpandUserSymbols ?ini else Inr ?ini) = Inr c1
      \<and> has_aggregation c1 = [] \<and> aggregations c1 = []
      \<and> (\<forall>u. table u \<noteq> None \<longrightarrow> symbol_table c1 u \<noteq> None)"
  proof (cases "body_all_identifiers b")
    case True
    have i: "symbol_table ?ini = table" "aggregations ?ini = []" "has_aggregation ?ini = []"
      by (simp_all add: initial_context_def)
    from fold_expand_symbol [of bound ?ini]
    have "aggregations (fold expand_symbol bound ?ini) = aggregations ?ini"
      "has_aggregation (fold expand_symbol bound ?ini) = has_aggregation ?ini" by blast+
    with True i fold_expand_symbol_dom [of ?ini _ bound] show ?thesis
      by (simp add: ExpandUserSymbols_initial)
  next
    case False
    then show ?thesis by (simp add: initial_context_def)
  qed
  then obtain c1 where
    a: "(if body_all_identifiers b then ExpandUserSymbols ?ini else Inr ?ini) = Inr c1"
    and h: "has_aggregation c1 = []" and g: "aggregations c1 = []"
    and d: "\<And>u. table u \<noteq> None \<Longrightarrow> symbol_table c1 u \<noteq> None" by auto
  have "list_all (\<lambda>ne. symbol_table c1 (ne_uid ne) \<noteq> None \<and>
      classifiable (symbol_table c1) (ne_expression ne)) (body_named_expressions b)"
    using assms d classifiable_mono [of table "symbol_table c1", OF d]
    by (simp add: list_all_iff)
  from collect_named_expressions_returns [OF h this] obtain c2 where
    r: "collect_named_expressions (body_named_expressions b) c1 = Inr c2"
    and g2: "grown (list_ex (\<lambda>ne. contains_aggregation (ne_expression ne))
               (body_named_expressions b)) c1 c2" by auto
  from g2 g d have "(aggregations c2 = [] \<longleftrightarrow>
           \<not> list_ex (\<lambda>ne. contains_aggregation (ne_expression ne)) (body_named_expressions b))"
    "\<forall>u. table u \<noteq> None \<longrightarrow> symbol_table c2 u \<noteq> None"
    by (auto simp: grown_def)
  with a r show ?thesis by (simp add: collect_output_def)
qed

lemma ReturnBodyContext_returns:
  assumes "body_classifiable table b w"
  shows "\<exists>c. ReturnBodyContext b table bound st w = Inr c"
proof -
  let ?aggr = "list_ex (\<lambda>ne. contains_aggregation (ne_expression ne)) (body_named_expressions b)"
  from assms have n: "list_all (\<lambda>ne. table (ne_uid ne) \<noteq> None \<and>
      classifiable table (ne_expression ne)) (body_named_expressions b)"
    by (simp add: body_classifiable_def)
  from collect_output_returns [OF n, of bound st w] obtain c2 where
    a: "collect_output b (initial_context b table bound st w) = Inr c2"
    and g: "aggregations c2 = [] \<longleftrightarrow> \<not> ?aggr"
    and d: "\<And>u. table u \<noteq> None \<Longrightarrow> symbol_table c2 u \<noteq> None" by auto
  show ?thesis
  proof (cases ?aggr)
    case True
    with a g show ?thesis by (simp add: ReturnBodyContext_def)
  next
    case False
    with assms have o: "list_all (\<lambda>order_pair. classifiable table (snd order_pair) \<and>
                        \<not> contains_aggregation (snd order_pair)) (body_order_by b)"
      and wh: "case w of None \<Rightarrow> True | Some e \<Rightarrow> classifiable table e \<and> \<not> contains_aggregation e"
      by (simp_all add: body_classifiable_def)
    from o have "list_all (\<lambda>order_pair. classifiable (symbol_table c2) (snd order_pair))
        (body_order_by b)"
      using classifiable_mono [of table "symbol_table c2", OF d] by (simp add: list_all_iff)
    from visit_order_by_returns [OF this] obtain c3 where
      v: "visit_order_by (body_order_by b) c2 = Inr c3"
      and g3: "grown (list_ex (\<lambda>order_pair. contains_aggregation (snd order_pair))
                 (body_order_by b)) c2 c3" by auto
    from o have "\<not> list_ex (\<lambda>order_pair. contains_aggregation (snd order_pair)) (body_order_by b)"
      by (simp add: list_all_iff list_ex_iff)
    with g3 have g3': "grown False c2 c3" by simp
    then have t3: "symbol_table c3 = symbol_table c2" by (simp add: grown_def)
    from wh have "case w of None \<Rightarrow> True | Some e \<Rightarrow> classifiable (symbol_table c3) e"
      unfolding t3 using classifiable_mono [of table "symbol_table c2", OF d]
      by (cases w) simp_all
    from visit_where_returns [OF this] obtain c4 where
      v4: "visit_where w c3 = Inr c4"
      and g4: "grown (case w of None \<Rightarrow> False | Some e \<Rightarrow> contains_aggregation e) c3 c4" by auto
    from wh have "(case w of None \<Rightarrow> False | Some e \<Rightarrow> contains_aggregation e) = False"
      by (cases w) simp_all
    with g4 have "grown False c3 c4" by simp
    with g3' g False have "aggregations c4 = []" by (simp add: grown_def)
    with a g False v v4 show ?thesis by (simp add: ReturnBodyContext_def)
  qed
qed


section \<open>WITH and RETURN\<close>

lemma fold_insert_symbol:
  "set (fold (\<lambda>s b. fst (insert_symbol s b)) xs b0) = set b0 \<union> set xs
   \<and> (distinct b0 \<longrightarrow> distinct (fold (\<lambda>s b. fst (insert_symbol s b)) xs b0))"
  by (induction xs arbitrary: b0) (auto simp: insert_symbol_def)

lemma with_run:
  "GenWith with_body (Some with_where) (Some (ScanAll sym_n)) with_table True [sym_n] 7 =
     Inr (GenReturnBody (Some (ScanAll sym_n)) True with_context True, [sym_k, sym_s], with_table, 7)"
  by (simp add: GenWith_def with_context_run Let_def)
     (simp add: with_context_def insert_symbol_def sym_k_def sym_s_def)

lemma plain_with_run:
  "GenWith plain_body (Some plain_where) (Some (ScanAll sym_n)) plain_table is_write [sym_n, sym_a] 7 =
     Inr (GenReturnBody (Some (ScanAll sym_n)) is_write plain_context is_write, [sym_k], plain_table, 7)"
  by (simp add: GenWith_def plain_context_run Let_def)
     (simp add: plain_context_def insert_symbol_def)

lemma star_with_run:
  "GenWith star_body None (Some (ScanAll sym_n)) plain_table False [sym_n, sym_agg, sym_a] 7 =
     Inr (Some (Produce (Some (ScanAll sym_n))
                  [NamedExpression 10 ''a'' (Identifier (Ident 9 ''a'' True)),
                   NamedExpression 8 ''n'' (Identifier (Ident 7 ''n'' True)),
                   NamedExpression 1 ''k'' (PropertyLookup (Identifier (Ident 0 ''n'' True)) ''k'')]),
          [sym_a, sym_n, sym_k],
          plain_table(7 \<mapsto> sym_n, 8 \<mapsto> sym_n, 9 \<mapsto> sym_a, 10 \<mapsto> sym_a), 11)"
  by (simp add: GenWith_def GenReturnBody_def context_defs visit_defs star_body_def plain_table_def
      symbol_defs Let_def eval_nat_numeral)


lemma plain_return_run:
  "GenReturn plain_body (Some (ScanAll sym_n)) plain_table is_write [sym_n, sym_a] 7 =
     Inr (Some (OrderBy
                  (Some (Produce
                     (if is_write then Some (Accumulate (Some (ScanAll sym_n)) [sym_n, sym_a] False)
                      else Some (ScanAll sym_n))
                     (body_named_expressions plain_body)))
                  (body_order_by plain_body) [sym_k]),
          plain_table, 7)"
  by (simp add: GenReturn_def GenReturnBody_def context_defs visit_defs plain_body_def
      plain_table_def symbol_defs Let_def)

lemma GenWith_Inr:
  assumes "GenWith b w input_op table is_write bound st = Inr (op, bound', table', st')"
  shows "\<exists>c. ReturnBodyContext b table bound st w = Inr c
     \<and> set bound' = set (output_symbols c) \<and> distinct bound'
     \<and> output_symbols c =
         (if body_all_identifiers b then sort_key name (filter user_declared bound) else []) @
         map (\<lambda>ne. the (table' (ne_uid ne))) (body_named_expressions b)
     \<and> (\<forall>s \<in> set bound. s \<notin> set (output_symbols c) \<longrightarrow> s \<notin> set bound')
     \<and> (\<forall>s \<in> set (output_symbols c). s \<in> set bound')"
proof -
  from assms obtain c where
    c: "ReturnBodyContext b table bound st w = Inr c"
    and b: "bound' = fold (\<lambda>s b. fst (insert_symbol s b)) (output_symbols c) []"
    and t: "table' = symbol_table c"
    by (auto simp: GenWith_def and_then_Inr_iff Let_def)
  from fold_insert_symbol [of "output_symbols c" "[]"] b
  have s: "set bound' = set (output_symbols c)" "distinct bound'" by simp_all
  from ReturnBodyContext_output(1) [OF c] c s t show ?thesis by auto
qed

lemma GenWith_returns:
  assumes "body_classifiable table b w"
  shows "\<exists>r. GenWith b w input_op table is_write bound st = Inr r"
proof -
  from ReturnBodyContext_returns [OF assms, of bound st] obtain c where
    "ReturnBodyContext b table bound st w = Inr c" by auto
  then show ?thesis by (simp add: GenWith_def Let_def)
qed

text \<open>
  C2. \<^verbatim>\<open>GenWith\<close> returns for every body that the classifier accepts, after a
  write or not: every named expression and every identifier in it has a symbol,
  no CASE holds an aggregation, every aggregation has the arguments of its kind,
  and ORDER BY and WHERE hold no aggregation unless a named expression does. When
  it returns, the bound symbols are, as a set, exactly the output symbols of the
  context built for the body of the WITH: every output symbol is bound, and every
  symbol bound before that is not an output symbol is no longer bound. The output
  symbols are those of the \<^verbatim>\<open>*\<close> expansion, if any, followed by the symbols of the
  named expressions of the body.
\<close>

theorem GenWith_resets_bound_symbols:
  "(body_classifiable table b w \<longrightarrow>
      (\<exists>op bound' table' st'.
         GenWith b w input_op table is_write bound st = Inr (op, bound', table', st')
         \<and> set bound' =
             set ((if body_all_identifiers b then sort_key name (filter user_declared bound) else []) @
                  map (\<lambda>ne. the (table' (ne_uid ne))) (body_named_expressions b))))
   \<and> (GenWith b w input_op table is_write bound st = Inr (op, bound', table', st') \<longrightarrow>
      (\<exists>c. ReturnBodyContext b table bound st w = Inr c
         \<and> set bound' = set (output_symbols c) \<and> distinct bound'
         \<and> output_symbols c =
             (if body_all_identifiers b then sort_key name (filter user_declared bound) else []) @
             map (\<lambda>ne. the (table' (ne_uid ne))) (body_named_expressions b)
         \<and> (\<forall>s \<in> set bound. s \<notin> set (output_symbols c) \<longrightarrow> s \<notin> set bound')
         \<and> (\<forall>s \<in> set (output_symbols c). s \<in> set bound')))"
proof (intro conjI impI)
  assume "body_classifiable table b w"
  from GenWith_returns [OF this, of input_op is_write bound st] obtain op1 b1 t1 s1 where
    r: "GenWith b w input_op table is_write bound st = Inr (op1, b1, t1, s1)"
    by (metis prod_cases4)
  from GenWith_Inr [OF r] have "set b1 =
      set ((if body_all_identifiers b then sort_key name (filter user_declared bound) else []) @
           map (\<lambda>ne. the (t1 (ne_uid ne))) (body_named_expressions b))"
    by metis
  with r show "\<exists>op bound' table' st'.
         GenWith b w input_op table is_write bound st = Inr (op, bound', table', st')
         \<and> set bound' =
             set ((if body_all_identifiers b then sort_key name (filter user_declared bound) else []) @
                  map (\<lambda>ne. the (table' (ne_uid ne))) (body_named_expressions b))"
    by blast
next
  assume "GenWith b w input_op table is_write bound st = Inr (op, bound', table', st')"
  then show "\<exists>c. ReturnBodyContext b table bound st w = Inr c
         \<and> set bound' = set (output_symbols c) \<and> distinct bound'
         \<and> output_symbols c =
             (if body_all_identifiers b then sort_key name (filter user_declared bound) else []) @
             map (\<lambda>ne. the (table' (ne_uid ne))) (body_named_expressions b)
         \<and> (\<forall>s \<in> set bound. s \<notin> set (output_symbols c) \<longrightarrow> s \<notin> set bound')
         \<and> (\<forall>s \<in> set (output_symbols c). s \<in> set bound')"
    by (rule GenWith_Inr)
qed

lemma plain_body_classifiable: "body_classifiable plain_table plain_body (Some plain_where)"
  by (simp add: body_classifiable_def plain_body_def plain_where_def plain_table_def)

lemma plain_return_classifiable: "body_classifiable plain_table plain_body None"
  by (simp add: body_classifiable_def plain_body_def plain_table_def)

lemma star_body_classifiable: "body_classifiable plain_table star_body None"
  by (simp add: body_classifiable_def star_body_def plain_table_def)

lemma with_body_classifiable: "body_classifiable with_table with_body (Some with_where)"
  by (simp add: body_classifiable_def with_body_def with_table_def)

theorem GenWith_resets_bound_symbols_witness:
  "body_classifiable plain_table plain_body (Some plain_where)
   \<and> GenWith plain_body (Some plain_where) (Some (ScanAll sym_n)) plain_table False [sym_n, sym_a] 7 =
       Inr (GenReturnBody (Some (ScanAll sym_n)) False plain_context False, [sym_k], plain_table, 7)
   \<and> set [sym_k] = set (output_symbols plain_context)
   \<and> sym_n \<notin> set [sym_k] \<and> sym_a \<notin> set [sym_k]
   \<and> body_classifiable plain_table star_body None
   \<and> GenWith star_body None (Some (ScanAll sym_n)) plain_table False [sym_n, sym_agg, sym_a] 7 =
       Inr (Some (Produce (Some (ScanAll sym_n))
                    [NamedExpression 10 ''a'' (Identifier (Ident 9 ''a'' True)),
                     NamedExpression 8 ''n'' (Identifier (Ident 7 ''n'' True)),
                     NamedExpression 1 ''k'' (PropertyLookup (Identifier (Ident 0 ''n'' True)) ''k'')]),
            [sym_a, sym_n, sym_k],
            plain_table(7 \<mapsto> sym_n, 8 \<mapsto> sym_n, 9 \<mapsto> sym_a, 10 \<mapsto> sym_a), 11)
   \<and> sym_agg \<notin> set [sym_a, sym_n, sym_k]
   \<and> body_classifiable with_table with_body (Some with_where)
   \<and> GenWith with_body (Some with_where) (Some (ScanAll sym_n)) with_table True [sym_n] 7 =
       Inr (GenReturnBody (Some (ScanAll sym_n)) True with_context True, [sym_k, sym_s], with_table, 7)
   \<and> set [sym_k, sym_s] = set (output_symbols with_context)
   \<and> sym_n \<notin> set [sym_k, sym_s]"
proof -
  note plain = plain_with_run [of False]
  from GenWith_resets_bound_symbols
    [of plain_table plain_body "Some plain_where" "Some (ScanAll sym_n)" False "[sym_n, sym_a]" 7,
     THEN conjunct1, rule_format, OF plain_body_classifiable]
  have 1: "\<exists>r. GenWith plain_body (Some plain_where) (Some (ScanAll sym_n)) plain_table False
             [sym_n, sym_a] 7 = Inr r" by blast
  from GenWith_resets_bound_symbols [THEN conjunct2, rule_format, OF plain] plain_context_run
  have 2: "set [sym_k] = set (output_symbols plain_context)" by auto
  from GenWith_resets_bound_symbols
    [of plain_table star_body None "Some (ScanAll sym_n)" False "[sym_n, sym_agg, sym_a]" 7,
     THEN conjunct1, rule_format, OF star_body_classifiable]
  have 3: "\<exists>r. GenWith star_body None (Some (ScanAll sym_n)) plain_table False
             [sym_n, sym_agg, sym_a] 7 = Inr r" by blast
  from GenWith_resets_bound_symbols [THEN conjunct2, rule_format, OF with_run] with_context_run
  have 4: "set [sym_k, sym_s] = set (output_symbols with_context)" by auto
  have 5: "sym_n \<notin> set [sym_k]" "sym_a \<notin> set [sym_k]" "sym_agg \<notin> set [sym_a, sym_n, sym_k]"
    "sym_n \<notin> set [sym_k, sym_s]"
    by (simp_all add: symbol_defs)
  from 1 2 3 4 5 plain star_with_run with_run plain_body_classifiable star_body_classifiable
    with_body_classifiable
  show ?thesis by blast
qed

lemma GenReturnBody_layers:
  "GenReturnBody input_op advance_command c accumulate =
     stack_layers (return_body_layers advance_command c accumulate) input_op"
  by (simp add: GenReturnBody_def return_body_layers_def stack_layers_def Let_def
      split: option.splits)

lemma accumulate_flags_return_body:
  "accumulate_flags (return_body_layers advance_command c accumulate) =
     (if accumulate then [advance_command] else [])"
  by (cases "body_skip (body c)"; cases "body_limit (body c)"; cases "where_clause c")
     (simp_all add: accumulate_flags_def return_body_layers_def)

text \<open>
  C6. \<^verbatim>\<open>GenReturn\<close> builds the return body with accumulate equal to the write marker
  and advance_command false; \<^verbatim>\<open>GenWith\<close> builds it with both equal to the write
  marker. Both return for every body that the classifier accepts, and the plan is
  then the layers of the return body stacked on the input. So the operators stacked
  on the input hold an \<open>Accumulate\<close> exactly when the query wrote before; it never
  advances the command for RETURN and always does for WITH. A failure of the
  classifier is the failure of \<^verbatim>\<open>GenReturn\<close> and of \<^verbatim>\<open>GenWith\<close>.
\<close>

theorem accumulate_only_after_writes:
  "(body_classifiable table rb None \<longrightarrow>
      (\<exists>c. ReturnBodyContext rb table bound st None = Inr c
         \<and> GenReturn rb input_op table is_write bound st =
             Inr (stack_layers (return_body_layers False c is_write) input_op,
                  symbol_table c, storage c)
         \<and> accumulate_flags (return_body_layers False c is_write) =
             (if is_write then [False] else [])))
   \<and> (body_classifiable table wb ww \<longrightarrow>
      (\<exists>c bound1. ReturnBodyContext wb table bound st ww = Inr c
         \<and> GenWith wb ww input_op table is_write bound st =
             Inr (stack_layers (return_body_layers is_write c is_write) input_op,
                  bound1, symbol_table c, storage c)
         \<and> accumulate_flags (return_body_layers is_write c is_write) =
             (if is_write then [True] else [])))
   \<and> (ReturnBodyContext rb table bound st None = Inl f \<longrightarrow>
        GenReturn rb input_op table is_write bound st = Inl f)
   \<and> (ReturnBodyContext wb table bound st ww = Inl f \<longrightarrow>
        GenWith wb ww input_op table is_write bound st = Inl f)
   \<and> (GenReturn rb input_op table is_write bound st = Inr (op, table', st') \<longrightarrow>
      (\<exists>c. ReturnBodyContext rb table bound st None = Inr c
         \<and> op = GenReturnBody input_op False c is_write
         \<and> op = stack_layers (return_body_layers False c is_write) input_op
         \<and> accumulate_flags (return_body_layers False c is_write) =
             (if is_write then [False] else [])))
   \<and> (GenWith wb ww input_op table is_write bound st = Inr (op2, bound2, table2, st2) \<longrightarrow>
      (\<exists>c. ReturnBodyContext wb table bound st ww = Inr c
         \<and> op2 = GenReturnBody input_op is_write c is_write
         \<and> op2 = stack_layers (return_body_layers is_write c is_write) input_op
         \<and> accumulate_flags (return_body_layers is_write c is_write) =
             (if is_write then [True] else [])))"
proof (intro conjI impI)
  assume "body_classifiable table rb None"
  from ReturnBodyContext_returns [OF this, of bound st] obtain c where
    c: "ReturnBodyContext rb table bound st None = Inr c" by auto
  then have "GenReturn rb input_op table is_write bound st =
      Inr (stack_layers (return_body_layers False c is_write) input_op, symbol_table c, storage c)"
    by (simp add: GenReturn_def Let_def GenReturnBody_layers)
  with c show "\<exists>c. ReturnBodyContext rb table bound st None = Inr c
         \<and> GenReturn rb input_op table is_write bound st =
             Inr (stack_layers (return_body_layers False c is_write) input_op,
                  symbol_table c, storage c)
         \<and> accumulate_flags (return_body_layers False c is_write) =
             (if is_write then [False] else [])"
    using accumulate_flags_return_body [of False c is_write] by (cases is_write) auto
next
  assume "body_classifiable table wb ww"
  from ReturnBodyContext_returns [OF this, of bound st] obtain c where
    c: "ReturnBodyContext wb table bound st ww = Inr c" by auto
  then have "GenWith wb ww input_op table is_write bound st =
      Inr (stack_layers (return_body_layers is_write c is_write) input_op,
           fold (\<lambda>smb acc. fst (insert_symbol smb acc)) (output_symbols c) [],
           symbol_table c, storage c)"
    by (simp add: GenWith_def Let_def GenReturnBody_layers)
  with c show "\<exists>c bound1. ReturnBodyContext wb table bound st ww = Inr c
         \<and> GenWith wb ww input_op table is_write bound st =
             Inr (stack_layers (return_body_layers is_write c is_write) input_op,
                  bound1, symbol_table c, storage c)
         \<and> accumulate_flags (return_body_layers is_write c is_write) =
             (if is_write then [True] else [])"
    using accumulate_flags_return_body [of is_write c is_write] by (cases is_write) auto
next
  assume "ReturnBodyContext rb table bound st None = Inl f"
  then show "GenReturn rb input_op table is_write bound st = Inl f"
    by (simp add: GenReturn_def Let_def)
next
  assume "ReturnBodyContext wb table bound st ww = Inl f"
  then show "GenWith wb ww input_op table is_write bound st = Inl f"
    by (simp add: GenWith_def Let_def)
next
  assume "GenReturn rb input_op table is_write bound st = Inr (op, table', st')"
  then show "\<exists>c. ReturnBodyContext rb table bound st None = Inr c
         \<and> op = GenReturnBody input_op False c is_write
         \<and> op = stack_layers (return_body_layers False c is_write) input_op
         \<and> accumulate_flags (return_body_layers False c is_write) =
             (if is_write then [False] else [])"
    by (auto simp: GenReturn_def Let_def and_then_Inr_iff GenReturnBody_layers
        accumulate_flags_return_body)
next
  assume "GenWith wb ww input_op table is_write bound st = Inr (op2, bound2, table2, st2)"
  then show "\<exists>c. ReturnBodyContext wb table bound st ww = Inr c
         \<and> op2 = GenReturnBody input_op is_write c is_write
         \<and> op2 = stack_layers (return_body_layers is_write c is_write) input_op
         \<and> accumulate_flags (return_body_layers is_write c is_write) =
             (if is_write then [True] else [])"
    by (auto simp: GenWith_def Let_def and_then_Inr_iff GenReturnBody_layers
        accumulate_flags_return_body)
qed

lemma plain_with_plan:
  "GenReturnBody (Some (ScanAll sym_n)) is_write plain_context is_write =
     Some (Filter
       (Some (OrderBy
          (Some (Produce
             (if is_write then Some (Accumulate (Some (ScanAll sym_n)) [sym_n, sym_a] True)
              else Some (ScanAll sym_n))
             (body_named_expressions plain_body)))
          (body_order_by plain_body) [sym_k]))
       plain_where)"
  by (simp add: GenReturnBody_def plain_context_def plain_body_def Let_def)

theorem accumulate_only_after_writes_witness:
  "body_classifiable plain_table plain_body None
   \<and> body_classifiable plain_table plain_body (Some plain_where)
   \<and> GenReturn plain_body (Some (ScanAll sym_n)) plain_table False [sym_n, sym_a] 7 =
       Inr (Some (OrderBy
                    (Some (Produce (Some (ScanAll sym_n)) (body_named_expressions plain_body)))
                    (body_order_by plain_body) [sym_k]),
            plain_table, 7)
   \<and> GenReturn plain_body (Some (ScanAll sym_n)) plain_table True [sym_n, sym_a] 7 =
       Inr (Some (OrderBy
                    (Some (Produce (Some (Accumulate (Some (ScanAll sym_n)) [sym_n, sym_a] False))
                       (body_named_expressions plain_body)))
                    (body_order_by plain_body) [sym_k]),
            plain_table, 7)
   \<and> GenWith plain_body (Some plain_where) (Some (ScanAll sym_n)) plain_table False [sym_n, sym_a] 7 =
       Inr (Some (Filter
                    (Some (OrderBy
                       (Some (Produce (Some (ScanAll sym_n)) (body_named_expressions plain_body)))
                       (body_order_by plain_body) [sym_k]))
                    plain_where),
            [sym_k], plain_table, 7)
   \<and> GenWith plain_body (Some plain_where) (Some (ScanAll sym_n)) plain_table True [sym_n, sym_a] 7 =
       Inr (Some (Filter
                    (Some (OrderBy
                       (Some (Produce (Some (Accumulate (Some (ScanAll sym_n)) [sym_n, sym_a] True))
                          (body_named_expressions plain_body)))
                       (body_order_by plain_body) [sym_k]))
                    plain_where),
            [sym_k], plain_table, 7)
   \<and> accumulate_flags (return_body_layers False plain_context False) = []
   \<and> accumulate_flags (return_body_layers True plain_context True) = [True]"
proof -
  note rd = accumulate_only_after_writes
    [of plain_table plain_body "[sym_n, sym_a]" 7 "Some (ScanAll sym_n)" False plain_body
      "Some plain_where"]
  note wr = accumulate_only_after_writes
    [of plain_table plain_body "[sym_n, sym_a]" 7 "Some (ScanAll sym_n)" True plain_body
      "Some plain_where"]
  from rd [THEN conjunct1, rule_format, OF plain_return_classifiable]
  have 1: "\<exists>r. GenReturn plain_body (Some (ScanAll sym_n)) plain_table False [sym_n, sym_a] 7 = Inr r"
    by auto
  from wr [THEN conjunct1, rule_format, OF plain_return_classifiable]
  have 2: "\<exists>r. GenReturn plain_body (Some (ScanAll sym_n)) plain_table True [sym_n, sym_a] 7 = Inr r"
    by auto
  from rd [THEN conjunct2, THEN conjunct1, rule_format, OF plain_body_classifiable]
    plain_context_run
  have 3: "accumulate_flags (return_body_layers False plain_context False) = []" by auto
  from wr [THEN conjunct2, THEN conjunct1, rule_format, OF plain_body_classifiable]
    plain_context_run
  have 4: "accumulate_flags (return_body_layers True plain_context True) = [True]" by auto
  from 1 2 3 4 plain_return_run [of False] plain_return_run [of True]
    plain_with_run [of False] plain_with_run [of True] plain_with_plan [of False]
    plain_with_plan [of True] plain_return_classifiable plain_body_classifiable
  show ?thesis by simp
qed

end
